theory Spec2Isabelle
  imports Main
begin

section \<open>Python string operations used by the crawler\<close>

text \<open>
  Strings are lists of characters. URLs and markup text are taken to be ASCII, so that
  \<open>str.lower\<close> only moves the letters A to Z.
\<close>

definition rstrip_slash :: "string \<Rightarrow> string" where
  \<comment> \<open>\<open>s.rstrip('/')\<close>: every trailing slash is removed, not only one.\<close>
  "rstrip_slash s = rev (dropWhile (\<lambda>c. c = CHR ''/'') (rev s))"

definition startswith :: "string \<Rightarrow> string \<Rightarrow> bool" where
  "startswith s p = (take (length p) s = p)"

definition endswith :: "string \<Rightarrow> string \<Rightarrow> bool" where
  "endswith s p = (length p \<le> length s \<and> drop (length s - length p) s = p)"

fun contains :: "string \<Rightarrow> string \<Rightarrow> bool" where
  \<comment> \<open>\<open>k in s\<close> for strings: \<open>k\<close> occurs as a substring of \<open>s\<close>.\<close>
  "contains [] k = (k = [])"
| "contains (c # cs) k = (startswith (c # cs) k \<or> contains cs k)"

definition lower_char :: "char \<Rightarrow> char" where
  "lower_char c =
     (let n = (of_char c :: nat) in if 65 \<le> n \<and> n \<le> 90 then char_of (n + 32) else c)"

definition lower :: "string \<Rightarrow> string" where
  "lower s = map lower_char s"

definition is_space :: "char \<Rightarrow> bool" where
  \<comment> \<open>The characters \<open>str.strip()\<close> removes, among the first 256 code points.\<close>
  "is_space c =
     (let n = (of_char c :: nat)
      in (9 \<le> n \<and> n \<le> 13) \<or> (28 \<le> n \<and> n \<le> 32) \<or> n = 133 \<or> n = 160)"

definition strip :: "string \<Rightarrow> string" where
  "strip s = rev (dropWhile is_space (rev (dropWhile is_space s)))"

fun split_on :: "char \<Rightarrow> string \<Rightarrow> string list" where
  \<comment> \<open>\<open>s.split(d)\<close> for a one-character separator.\<close>
  "split_on d [] = [[]]"
| "split_on d (c # cs) =
     (if c = d then [] # split_on d cs
      else (case split_on d cs of [] \<Rightarrow> [[c]] | w # ws \<Rightarrow> (c # w) # ws))"

fun join :: "string \<Rightarrow> string list \<Rightarrow> string" where
  \<comment> \<open>\<open>sep.join(xs)\<close>\<close>
  "join sep [] = []"
| "join sep [x] = x"
| "join sep (x # y # ys) = x @ sep @ join sep (y # ys)"

subsection \<open>The network location of a URL\<close>

text \<open>
  \<open>urllib.parse.urlparse(url).netloc\<close>, on the points the crawler depends on: leading
  control characters and spaces are dropped, tabs and line breaks are removed, a leading
  scheme (a letter, then letters, digits, plus, minus, dot, up to the first colon) is cut
  off, and if what remains starts with two slashes the network location runs up to the
  first slash, question mark or hash. A network location with an unbalanced square
  bracket raises \<open>ValueError\<close>: the result \<open>None\<close>.
\<close>

definition is_alpha :: "char \<Rightarrow> bool" where
  "is_alpha c =
     (let n = (of_char c :: nat) in (65 \<le> n \<and> n \<le> 90) \<or> (97 \<le> n \<and> n \<le> 122))"

definition is_scheme_char :: "char \<Rightarrow> bool" where
  "is_scheme_char c =
     (let n = (of_char c :: nat)
      in is_alpha c \<or> (48 \<le> n \<and> n \<le> 57) \<or> c = CHR ''+'' \<or> c = CHR ''-'' \<or> c = CHR ''.'')"

definition strip_scheme :: "string \<Rightarrow> string" where
  "strip_scheme u =
     (let pre = takeWhile (\<lambda>c. c \<noteq> CHR '':'') u
      in if length pre < length u \<and> pre \<noteq> [] \<and> is_alpha (hd pre) \<and> list_all is_scheme_char pre
         then drop (Suc (length pre)) u else u)"

definition urlparse_netloc :: "string \<Rightarrow> string option" where
  "urlparse_netloc url =
     (let u0 = dropWhile (\<lambda>c. (of_char c :: nat) \<le> 32) url;
          u1 = filter (\<lambda>c. (of_char c :: nat) \<notin> {9, 10, 13}) u0;
          u2 = strip_scheme u1
      in if take 2 u2 = ''//''
         then (let netloc = takeWhile (\<lambda>c. c \<notin> {CHR ''/'', CHR ''?'', CHR ''#''}) (drop 2 u2)
               in if (CHR ''['' \<in> set netloc) \<noteq> (CHR '']'' \<in> set netloc)
                  then None else Some netloc)
         else Some [])"

section \<open>Configuration\<close>

text \<open>
  The module-level constants read from the environment. \<open>int(...)\<close> accepts any integer,
  so depth, retry cap, restart interval and page limit are integers of either sign.
  \<open>DOMAIN\<close> is computed once at import time from the start URL; it is kept as a
  field of its own.

  The last field is not read from the environment. The retry routine retries by calling
  itself, so every retry adds a frame to the interpreter's call stack;
  \<open>RECURSION_ROOM\<close> is the number of nested activations of the routine (each with
  the calls it makes itself) that the stack admits when the loop calls it. It is at most
  \<open>sys.getrecursionlimit()\<close>, which is 1000 unless it was changed.
\<close>

record config =
  START_URL :: string
  MAX_DEPTH :: int
  DOMAIN :: string
  SKIP_KEYWORDS :: "string list"
  DRIVER_RESTART_INTERVAL :: int
  MAX_RETRIES :: int
  PAGE_LIMIT :: int
  RECURSION_ROOM :: nat

section \<open>The database connection\<close>

text \<open>
  A row of table \<open>pages\<close>, without the serial identifier and the timestamp the
  server assigns.
\<close>

record page_row =
  row_url :: string
  row_title :: string
  row_content :: string
  row_h1_tags :: string
  row_h2_tags :: string
  row_h3_tags :: string
  row_meta_description :: string
  row_meta_keywords :: string
  row_page_depth :: int
  row_retry_count :: int
  row_status :: string

datatype exn = Psycopg2Error | ValueError | ZeroDivisionError | RecursionError

datatype stmt = Truncate | CreatePages | OtherDDL | Upsert page_row

text \<open>
  The state of the transaction a psycopg2 connection keeps open: none, one with the
  table contents it sees, or one that a failed statement has aborted (every further
  statement is refused until a rollback).
\<close>

datatype txn_state = NoTxn | InTxn "page_row list option" | FailedTxn

text \<open>
  The connection handle together with what the server holds. \<open>pages\<close> is the committed
  content of the table (\<open>None\<close>: the relation does not exist); \<open>faults\<close> says, for each
  coming \<open>cursor.execute\<close>, whether the server refuses it for a reason of its own;
  \<open>journal\<close> lists the statements sent so far. Commit and rollback themselves are taken
  to succeed.
\<close>

record conn =
  pages :: "page_row list option"
  txn :: txn_state
  faults :: "bool list"
  journal :: "stmt list"

fun upsert_row :: "page_row \<Rightarrow> page_row list \<Rightarrow> page_row list" where
  \<comment> \<open>\<open>INSERT ... ON CONFLICT (url) DO UPDATE SET ...\<close>: every column is overwritten.\<close>
  "upsert_row r [] = [r]"
| "upsert_row r (x # xs) = (if row_url x = row_url r then r # xs else x # upsert_row r xs)"

fun apply_stmt :: "stmt \<Rightarrow> page_row list option \<Rightarrow> page_row list option option" where
  "apply_stmt Truncate None = None"
| "apply_stmt Truncate (Some t) = Some (Some [])"
| "apply_stmt CreatePages None = Some (Some [])"
| "apply_stmt CreatePages (Some t) = Some (Some t)"
| "apply_stmt OtherDDL t = Some t"
| "apply_stmt (Upsert r) None = None"
| "apply_stmt (Upsert r) (Some t) = Some (Some (upsert_row r t))"

definition txn_view :: "conn \<Rightarrow> page_row list option" where
  "txn_view c = (case txn c of InTxn t \<Rightarrow> t | _ \<Rightarrow> pages c)"

definition cursor_execute :: "conn \<Rightarrow> stmt \<Rightarrow> exn option \<times> conn" where
  \<comment> \<open>The first component is the exception raised, if any.\<close>
  "cursor_execute c s =
     (let c1 = c\<lparr>faults := tl (faults c), journal := journal c @ [s]\<rparr>
      in if txn c = FailedTxn then (Some Psycopg2Error, c1)
         else if faults c \<noteq> [] \<and> hd (faults c) then (Some Psycopg2Error, c1\<lparr>txn := FailedTxn\<rparr>)
         else (case apply_stmt s (txn_view c) of
                 None \<Rightarrow> (Some Psycopg2Error, c1\<lparr>txn := FailedTxn\<rparr>)
               | Some t \<Rightarrow> (None, c1\<lparr>txn := InTxn t\<rparr>)))"

definition commit :: "conn \<Rightarrow> conn" where
  "commit c = (case txn c of InTxn t \<Rightarrow> c\<lparr>pages := t, txn := NoTxn\<rparr> | _ \<Rightarrow> c\<lparr>txn := NoTxn\<rparr>)"

definition rollback :: "conn \<Rightarrow> conn" where
  "rollback c = c\<lparr>txn := NoTxn\<rparr>"

fun execute_all :: "conn \<Rightarrow> stmt list \<Rightarrow> exn option \<times> conn" where
  "execute_all c [] = (None, c)"
| "execute_all c (s # ss) =
     (case cursor_execute c s of
        (Some e, c') \<Rightarrow> (Some e, c')
      | (None, c') \<Rightarrow> execute_all c' ss)"

definition create_tables :: "conn \<Rightarrow> conn" where
  \<comment> \<open>Two tables and six indexes; \<open>except psycopg2.Error\<close> rolls back and returns.\<close>
  "create_tables c =
     (case execute_all c
             [CreatePages, OtherDDL, OtherDDL, OtherDDL, OtherDDL, OtherDDL, OtherDDL, OtherDDL] of
        (None, c') \<Rightarrow> commit c'
      | (Some e, c') \<Rightarrow> rollback c')"

section \<open>Page records\<close>

text \<open>
  The dictionary \<open>scraped_data\<close>. The key \<open>retry_count\<close> is the only one that some
  of the dictionaries built by the scraper do not have: \<open>None\<close> is its absence.
\<close>

record scraped_data =
  url :: string
  title :: string
  content :: string
  h1_tags :: string
  h2_tags :: string
  h3_tags :: string
  meta_description :: string
  meta_keywords :: string
  page_depth :: int
  retry_count :: "int option"
  status :: string

definition row_of :: "scraped_data \<Rightarrow> page_row" where
  \<comment> \<open>The parameter tuple of the insert: \<open>scraped_data.get('retry_count', 0)\<close>.\<close>
  "row_of d =
     \<lparr>row_url = url d, row_title = title d, row_content = content d,
      row_h1_tags = h1_tags d, row_h2_tags = h2_tags d, row_h3_tags = h3_tags d,
      row_meta_description = meta_description d, row_meta_keywords = meta_keywords d,
      row_page_depth = page_depth d,
      row_retry_count = (case retry_count d of None \<Rightarrow> 0 | Some n \<Rightarrow> n),
      row_status = status d\<rparr>"

definition insert_data :: "conn \<Rightarrow> scraped_data \<Rightarrow> conn" where
  "insert_data c d =
     (case cursor_execute c (Upsert (row_of d)) of
        (None, c') \<Rightarrow> commit c'
      | (Some e, c') \<Rightarrow> rollback c')"

text \<open>
  Before anything is sent, \<open>cursor.execute\<close> turns the parameters into SQL literals,
  and a text parameter that holds a NUL character makes it raise \<open>ValueError\<close>. That
  is no \<open>psycopg2.Error\<close>, so it leaves \<open>insert_data\<close>, with the connection
  untouched. \<open>adapt_error\<close> is that exception, if any; \<open>insert_data\<close> above is
  the routine on parameters the driver accepts.
\<close>

definition adapt_error :: "scraped_data \<Rightarrow> exn option" where
  "adapt_error d =
     (if list_ex (\<lambda>s. CHR 0x00 \<in> set s)
           [url d, title d, content d, h1_tags d, h2_tags d, h3_tags d,
            meta_description d, meta_keywords d, status d]
      then Some ValueError else None)"

section \<open>Parsed markup and extraction\<close>

text \<open>
  What the parser reports of a rendered page. \<open>soup_title\<close> is \<open>None\<close> when the document
  has no title element, \<open>Some None\<close> when the element has no single string, and
  \<open>Some (Some s)\<close> when \<open>soup.title.string\<close> is \<open>s\<close>. \<open>body_text\<close> is the text of the body
  element if there is one; \<open>h1\<close>, \<open>h2\<close>, \<open>h3\<close> are the stripped texts of the heading
  elements in document order; a meta tag is absent, present without a content attribute,
  or present with one. \<open>anchors\<close> are the targets of the anchor elements, each already
  resolved against the page's URL.
\<close>

record soup =
  soup_title :: "string option option"
  body_text :: "string option"
  h1 :: "string list"
  h2 :: "string list"
  h3 :: "string list"
  meta_description_tag :: "string option option"
  meta_keywords_tag :: "string option option"
  anchors :: "string list"

definition title_tag :: "soup \<Rightarrow> string" where
  \<comment> \<open>\<open>soup.title.string.strip() if soup.title and soup.title.string else 'No Title'\<close>\<close>
  "title_tag s =
     (case soup_title s of
        None \<Rightarrow> ''No Title''
      | Some None \<Rightarrow> ''No Title''
      | Some (Some t) \<Rightarrow> if t \<noteq> [] then strip t else ''No Title'')"

definition cleaned_content :: "soup \<Rightarrow> string" where
  "cleaned_content s =
     (case body_text s of
        None \<Rightarrow> []
      | Some text_content \<Rightarrow>
          join [CHR 0x0A]
            (map strip (filter (\<lambda>line. strip line \<noteq> []) (split_on (CHR 0x0A) text_content))))"

definition heading_tags :: "string list \<Rightarrow> string" where
  "heading_tags hs = join '' | '' (filter (\<lambda>t. t \<noteq> []) hs)"

definition meta_content :: "string option option \<Rightarrow> string" where
  "meta_content m = (case m of Some (Some c) \<Rightarrow> c | _ \<Rightarrow> [])"

section \<open>Fetching one page with retries\<close>

text \<open>
  The outcome of one pass through the \<open>try\<close> block: the page loaded and was parsed, a
  \<open>TimeoutException\<close> was raised, or any other exception was. The site is a function
  from the URL and the attempt number to that outcome.
\<close>

datatype fetch_result = Loaded soup | Timeout | Failure

type_synonym web = "string \<Rightarrow> int \<Rightarrow> fetch_result"

record driver =
  navigations :: nat
  page_source :: "soup option"

definition get_driver :: driver where
  "get_driver = \<lparr>navigations = 0, page_source = None\<rparr>"

definition success_data :: "soup \<Rightarrow> string \<Rightarrow> int \<Rightarrow> int \<Rightarrow> scraped_data" where
  "success_data s u depth rc =
     \<lparr>url = rstrip_slash u, title = title_tag s, content = cleaned_content s,
      h1_tags = heading_tags (h1 s), h2_tags = heading_tags (h2 s), h3_tags = heading_tags (h3 s),
      meta_description = meta_content (meta_description_tag s),
      meta_keywords = meta_content (meta_keywords_tag s),
      page_depth = depth, retry_count = Some rc, status = ''success''\<rparr>"

definition failed_data :: "string \<Rightarrow> string \<Rightarrow> string \<Rightarrow> int \<Rightarrow> scraped_data" where
  \<comment> \<open>The dictionary of both exhausted branches; it has no key \<open>retry_count\<close>.\<close>
  "failed_data ttl st u depth =
     \<lparr>url = rstrip_slash u, title = ttl, content = [],
      h1_tags = [], h2_tags = [], h3_tags = [],
      meta_description = [], meta_keywords = [],
      page_depth = depth, retry_count = None, status = st\<rparr>"

text \<open>
  The end of both handlers once the retries are used up: the record of the failure is
  built and handed to \<open>insert_data\<close>. An exception of that call is raised inside the
  handler, so it leaves the routine and no record is returned.
\<close>

definition exhausted ::
  "string \<Rightarrow> string \<Rightarrow> string \<Rightarrow> int \<Rightarrow> driver \<Rightarrow> conn
     \<Rightarrow> (exn + scraped_data \<times> bool) \<times> driver \<times> conn" where
  "exhausted ttl st u depth drv c =
     (let d = failed_data ttl st u depth
      in case adapt_error d of
           None \<Rightarrow> (Inr (d, False), drv, insert_data c d)
         | Some e \<Rightarrow> (Inl e, drv, c))"

text \<open>
  The routine itself. The last argument is the number of activations the call stack
  still admits: with none left the call raises \<open>RecursionError\<close>, and since a retry is
  called from inside a handler, that exception passes through every activation below it
  and leaves the routine. The first component of the result is the exception that left
  the routine, or the returned pair of record and \<open>success\<close>. In the \<open>try\<close> block an
  exception of \<open>insert_data\<close> is caught like any other exception of the block.
\<close>

function scrape_page_with_retry ::
  "config \<Rightarrow> web \<Rightarrow> driver \<Rightarrow> string \<Rightarrow> int \<Rightarrow> conn \<Rightarrow> int \<Rightarrow> nat
     \<Rightarrow> (exn + scraped_data \<times> bool) \<times> driver \<times> conn" where
  "scrape_page_with_retry cfg site drv u depth c rc room =
     (if room = 0 then (Inl RecursionError, drv, c)
      else (case site u rc of
        Loaded s \<Rightarrow>
          (let d = success_data s u depth rc;
               drv' = drv\<lparr>navigations := Suc (navigations drv), page_source := Some s\<rparr>
           in case adapt_error d of
                None \<Rightarrow> (Inr (d, True), drv', insert_data c d)
              | Some e \<Rightarrow>
                  if rc < MAX_RETRIES cfg
                  then scrape_page_with_retry cfg site drv' u depth c (rc + 1) (room - 1)
                  else exhausted ''Error occurred'' ''error'' u depth drv' c)
      | Timeout \<Rightarrow>
          (let drv' = drv\<lparr>navigations := Suc (navigations drv)\<rparr>
           in if rc < MAX_RETRIES cfg
              then scrape_page_with_retry cfg site drv' u depth c (rc + 1) (room - 1)
              else exhausted ''Failed to load'' ''failed'' u depth drv' c)
      | Failure \<Rightarrow>
          (let drv' = drv\<lparr>navigations := Suc (navigations drv)\<rparr>
           in if rc < MAX_RETRIES cfg
              then scrape_page_with_retry cfg site drv' u depth c (rc + 1) (room - 1)
              else exhausted ''Error occurred'' ''error'' u depth drv' c)))"
  by pat_completeness auto
termination
  by (relation "measure (\<lambda>(cfg, site, drv, u, depth, c, rc, room). nat (MAX_RETRIES cfg - rc))")
     auto

section \<open>URL eligibility\<close>

definition skip_extensions :: "string list" where
  "skip_extensions =
     [''.pdf'', ''.jpg'', ''.jpeg'', ''.png'', ''.gif'', ''.bmp'', ''.svg'', ''.zip'', ''.rar'',
      ''.mp3'', ''.mp4'', ''.avi'', ''.mov'', ''.css'', ''.js'', ''.xml'', ''.json'', ''.txt'']"

definition is_valid_url :: "config \<Rightarrow> string \<Rightarrow> string \<Rightarrow> string set \<Rightarrow> bool option" where
  \<comment> \<open>\<open>None\<close>: \<open>urlparse\<close> raised. The skip keywords are the module constant.\<close>
  "is_valid_url cfg u domain visited =
     (if u = [] \<or> list_ex (startswith u) [''mailto:'', ''tel:'', ''#'', ''javascript:'']
      then Some False
      else (let normalized_url = rstrip_slash u
            in case urlparse_netloc normalized_url of
                 None \<Rightarrow> None
               | Some netloc \<Rightarrow>
                   if netloc \<noteq> domain then Some False
                   else if normalized_url \<in> visited then Some False
                   else if list_ex (endswith (lower normalized_url)) skip_extensions then Some False
                   else if list_ex (contains (lower normalized_url)) (SKIP_KEYWORDS cfg)
                   then Some False
                   else Some True))"

section \<open>The crawl loop\<close>

text \<open>
  The log lines the loop writes, in the order it writes them: the driver restart, the
  start of a page's scrape (page counter, depth, URL), a link appended to the queue (URL,
  depth), the error line of the link search, and the page limit being reached.
\<close>

datatype event =
    Restarting int
  | Scraping int int string
  | Added string int
  | LinkError
  | ReachedLimit

record crawl_state =
  driver :: driver
  pg_conn :: conn
  pages_scraped_count :: int
  urls_to_visit :: "(string \<times> int) list"
  visited_urls :: "string set"
  log :: "event list"

datatype 'a step = Continue 'a | Break 'a | Raise exn 'a

definition restart_driver :: "driver \<Rightarrow> driver" where
  \<comment> \<open>The old session is quit (errors of that are only logged), a new one is created;
      creating a session is taken to succeed.\<close>
  "restart_driver d = get_driver"

definition is_already_in_queue :: "string \<Rightarrow> (string \<times> int) list \<Rightarrow> bool" where
  "is_already_in_queue full_url q =
     list_ex (\<lambda>(url_in_queue, _). rstrip_slash url_in_queue = rstrip_slash full_url) q"

fun add_links ::
  "config \<Rightarrow> string set \<Rightarrow> int \<Rightarrow> string list \<Rightarrow> (string \<times> int) list \<times> event list
     \<Rightarrow> (string \<times> int) list \<times> event list" where
  \<comment> \<open>The loop over the anchors; an exception of \<open>is_valid_url\<close> ends it.\<close>
  "add_links cfg visited current_depth [] (q, lg) = (q, lg)"
| "add_links cfg visited current_depth (full_url # hrefs) (q, lg) =
     (if is_already_in_queue full_url q then add_links cfg visited current_depth hrefs (q, lg)
      else (case is_valid_url cfg full_url (DOMAIN cfg) visited of
              None \<Rightarrow> (q, lg @ [LinkError])
            | Some True \<Rightarrow>
                add_links cfg visited current_depth hrefs
                  (q @ [(full_url, current_depth + 1)], lg @ [Added full_url (current_depth + 1)])
            | Some False \<Rightarrow> add_links cfg visited current_depth hrefs (q, lg)))"

definition discover_links :: "config \<Rightarrow> int \<Rightarrow> crawl_state \<Rightarrow> crawl_state" where
  "discover_links cfg current_depth st =
     (let hrefs = (case page_source (driver st) of None \<Rightarrow> [] | Some s \<Rightarrow> anchors s);
          ql = add_links cfg (visited_urls st) current_depth hrefs (urls_to_visit st, log st)
      in st\<lparr>urls_to_visit := fst ql, log := snd ql\<rparr>)"

definition mark_visited :: "string \<Rightarrow> crawl_state \<Rightarrow> crawl_state" where
  \<comment> \<open>\<open>visited_urls.add(normalized_url); pages_scraped_count += 1\<close>\<close>
  "mark_visited normalized_url st =
     st\<lparr>visited_urls := insert normalized_url (visited_urls st),
        pages_scraped_count := pages_scraped_count st + 1\<rparr>"

definition periodic_restart :: "config \<Rightarrow> crawl_state \<Rightarrow> crawl_state" where
  \<comment> \<open>The restart block, for an interval other than 0.\<close>
  "periodic_restart cfg st =
     (if pages_scraped_count st > 0 \<and> pages_scraped_count st mod DRIVER_RESTART_INTERVAL cfg = 0
      then st\<lparr>driver := restart_driver (driver st),
              log := log st @ [Restarting (pages_scraped_count st)]\<rparr>
      else st)"

definition scrape_current ::
  "config \<Rightarrow> web \<Rightarrow> string \<Rightarrow> int \<Rightarrow> crawl_state \<Rightarrow> (exn + bool) \<times> crawl_state" where
  \<comment> \<open>The log line of the page and the call of the retry routine with its default
      retry counter 0; the first component is the exception that left the routine, or
      \<open>success\<close>.\<close>
  "scrape_current cfg site normalized_url current_depth st =
     (let r = scrape_page_with_retry cfg site (driver st) normalized_url current_depth
                (pg_conn st) 0 (RECURSION_ROOM cfg)
      in (map_sum id snd (fst r),
          st\<lparr>log := log st @ [Scraping (pages_scraped_count st) current_depth normalized_url],
             driver := fst (snd r), pg_conn := snd (snd r)\<rparr>))"

definition visit_page :: "config \<Rightarrow> web \<Rightarrow> string \<Rightarrow> int \<Rightarrow> crawl_state \<Rightarrow> crawl_state step" where
  \<comment> \<open>The body of the loop for an entry that passed the checks. The remainder by an
      interval of 0 raises \<open>ZeroDivisionError\<close>; an exception that leaves the retry
      routine ends the loop like it.\<close>
  "visit_page cfg site normalized_url current_depth st =
     (let st1 = mark_visited normalized_url st
      in if pages_scraped_count st1 > 0 \<and> DRIVER_RESTART_INTERVAL cfg = 0
         then Raise ZeroDivisionError st1
         else (case scrape_current cfg site normalized_url current_depth (periodic_restart cfg st1) of
                 (Inl e, st2) \<Rightarrow> Raise e st2
               | (Inr success, st2) \<Rightarrow>
                   Continue (if current_depth < MAX_DEPTH cfg \<and> success
                             then discover_links cfg current_depth st2 else st2)))"

definition crawl_step :: "config \<Rightarrow> web \<Rightarrow> crawl_state \<Rightarrow> crawl_state step" where
  \<comment> \<open>One pass through the \<open>while urls_to_visit\<close> loop.\<close>
  "crawl_step cfg site st =
     (case urls_to_visit st of
        [] \<Rightarrow> Break st
      | (current_url, current_depth) # rest \<Rightarrow>
          if PAGE_LIMIT cfg > 0 \<and> pages_scraped_count st \<ge> PAGE_LIMIT cfg
          then Break (st\<lparr>log := log st @ [ReachedLimit]\<rparr>)
          else (let st1 = st\<lparr>urls_to_visit := rest\<rparr>;
                    normalized_url = rstrip_slash current_url
                in case is_valid_url cfg normalized_url (DOMAIN cfg) (visited_urls st1) of
                     None \<Rightarrow> Raise ValueError st1
                   | Some valid \<Rightarrow>
                       if \<not> valid \<or> current_depth > MAX_DEPTH cfg then Continue st1
                       else visit_page cfg site normalized_url current_depth st1))"

datatype run_status = Running | Finished | Aborted exn

fun run_loop :: "config \<Rightarrow> web \<Rightarrow> nat \<Rightarrow> crawl_state \<Rightarrow> run_status \<times> crawl_state" where
  \<comment> \<open>At most \<open>n\<close> passes; \<open>Running\<close> when the loop has not ended by then.\<close>
  "run_loop cfg site 0 st = (Running, st)"
| "run_loop cfg site (Suc n) st =
     (case crawl_step cfg site st of
        Continue st' \<Rightarrow> run_loop cfg site n st'
      | Break st' \<Rightarrow> (Finished, st')
      | Raise e st' \<Rightarrow> (Aborted e, st'))"

definition initial_state :: "config \<Rightarrow> conn \<Rightarrow> crawl_state" where
  "initial_state cfg c =
     \<lparr>driver = get_driver, pg_conn = c, pages_scraped_count = 0,
      urls_to_visit = [(START_URL cfg, 0)], visited_urls = {}, log = []\<rparr>"

definition crawl_website ::
  "config \<Rightarrow> web \<Rightarrow> nat \<Rightarrow> conn \<Rightarrow> run_status \<times> conn \<times> crawl_state option" where
  \<comment> \<open>From the open connection on: truncate, commit, create the schema, start the
      session, loop. The result is the way the run ended, the connection as it was left,
      and the state of the loop (\<open>None\<close> when the loop was never entered).\<close>
  "crawl_website cfg site fuel c =
     (case cursor_execute c Truncate of
        (Some e, c') \<Rightarrow> (Aborted e, c', None)
      | (None, c') \<Rightarrow>
          (let r = run_loop cfg site fuel (initial_state cfg (create_tables (commit c')))
           in (fst r, pg_conn (snd r), Some (snd r))))"

section \<open>Reading a run\<close>

fun step_state :: "'a step \<Rightarrow> 'a" where
  "step_state (Continue s) = s"
| "step_state (Break s) = s"
| "step_state (Raise e s) = s"

fun fetched :: "event list \<Rightarrow> (string \<times> int) list" where
  \<comment> \<open>The pages whose scrape was started, with their depths, in order.\<close>
  "fetched [] = []"
| "fetched (Scraping n d u # es) = (u, d) # fetched es"
| "fetched (e # es) = fetched es"

fun enqueued :: "event list \<Rightarrow> (string \<times> int) list" where
  \<comment> \<open>The links appended to the queue, with their depths, in order.\<close>
  "enqueued [] = []"
| "enqueued (Added u d # es) = (u, d) # enqueued es"
| "enqueued (e # es) = enqueued es"

section \<open>Example inputs\<close>

definition example_config :: config where
  "example_config =
     \<lparr>START_URL = ''http://x/'', MAX_DEPTH = 1, DOMAIN = ''x'', SKIP_KEYWORDS = [''login''],
      DRIVER_RESTART_INTERVAL = 2, MAX_RETRIES = 1, PAGE_LIMIT = 0,
      RECURSION_ROOM = 1000\<rparr>"

definition example_conn :: conn where
  \<comment> \<open>A fresh connection to a database whose table \<open>pages\<close> exists and is empty.\<close>
  "example_conn = \<lparr>pages = Some [], txn = NoTxn, faults = [], journal = []\<rparr>"

definition always_timeout :: web where
  "always_timeout u n = Timeout"

definition always_failure :: web where
  "always_failure u n = Failure"

definition blank_title_page :: soup where
  \<comment> \<open>A page whose title element holds three spaces.\<close>
  "blank_title_page =
     \<lparr>soup_title = Some (Some ''   ''), body_text = Some ''hello'', h1 = [], h2 = [], h3 = [],
      meta_description_tag = None, meta_keywords_tag = None, anchors = []\<rparr>"

definition hub_page :: soup where
  \<comment> \<open>A page with three links into the site.\<close>
  "hub_page =
     \<lparr>soup_title = Some (Some ''Hub''), body_text = Some ''hello'', h1 = [], h2 = [], h3 = [],
      meta_description_tag = None, meta_keywords_tag = None,
      anchors = [''http://x/a'', ''http://x/b'', ''http://x/c'']\<rparr>"

definition four_pages :: web where
  \<comment> \<open>Every URL loads at once and shows the three links.\<close>
  "four_pages u n = Loaded hub_page"

definition interval_two_config :: config where
  "interval_two_config =
     \<lparr>START_URL = ''http://x/'', MAX_DEPTH = 1, DOMAIN = ''x'', SKIP_KEYWORDS = [''login''],
      DRIVER_RESTART_INTERVAL = 2, MAX_RETRIES = 0, PAGE_LIMIT = 0,
      RECURSION_ROOM = 1000\<rparr>"

definition missing_table_conn :: conn where
  \<comment> \<open>A fresh connection to a database that has no table \<open>pages\<close>.\<close>
  "missing_table_conn = \<lparr>pages = None, txn = NoTxn, faults = [], journal = []\<rparr>"

definition ready_conn :: conn where
  \<comment> \<open>\<open>example_conn\<close> once the run has truncated the table and created the schema.\<close>
  "ready_conn =
     \<lparr>pages = Some [], txn = NoTxn, faults = [],
      journal = [Truncate, CreatePages, OtherDDL, OtherDDL, OtherDDL, OtherDDL, OtherDDL,
                 OtherDDL, OtherDDL]\<rparr>"

definition seed_only_config :: config where
  "seed_only_config =
     \<lparr>START_URL = ''http://x/'', MAX_DEPTH = 0, DOMAIN = ''x'', SKIP_KEYWORDS = [''login''],
      DRIVER_RESTART_INTERVAL = 50, MAX_RETRIES = 1, PAGE_LIMIT = 0,
      RECURSION_ROOM = 1000\<rparr>"

definition flaky_site :: web where
  "flaky_site u n = (if n = 0 then Timeout else Loaded hub_page)"


definition four_pages_final :: crawl_state where
  "four_pages_final =
     snd (run_loop interval_two_config four_pages 5 (initial_state interval_two_config ready_conn))"

definition seed_only_final :: crawl_state where
  "seed_only_final =
     snd (run_loop seed_only_config flaky_site 2 (initial_state seed_only_config ready_conn))"

definition link_page :: soup where
  \<comment> \<open>A page with one link into the site.\<close>
  "link_page =
     \<lparr>soup_title = Some (Some ''Link''), body_text = Some ''hello'', h1 = [], h2 = [], h3 = [],
      meta_description_tag = None, meta_keywords_tag = None, anchors = [''http://x/a'']\<rparr>"

definition two_pages :: web where
  "two_pages u n = Loaded link_page"

definition faulty_conn :: conn where
  \<comment> \<open>\<open>ready_conn\<close> with a server that refuses the next statement.\<close>
  "faulty_conn =
     \<lparr>pages = Some [], txn = NoTxn, faults = [True],
      journal = [Truncate, CreatePages, OtherDDL, OtherDDL, OtherDDL, OtherDDL, OtherDDL,
                 OtherDDL, OtherDDL]\<rparr>"


definition fragment_page :: soup where
  \<comment> \<open>A page that links to another page and to an anchor inside that page.\<close>
  "fragment_page =
     \<lparr>soup_title = Some (Some ''Doc''), body_text = Some ''hello'', h1 = [], h2 = [], h3 = [],
      meta_description_tag = None, meta_keywords_tag = None,
      anchors = [''http://x/a'', ''http://x/a#top'']\<rparr>"


definition spec_normalize :: "string \<Rightarrow> string" where
  \<comment> \<open>The normalisation as the specification words it, for comparison with the code's:
      the fragment is removed and the trailing slash is stripped.\<close>
  "spec_normalize u = rstrip_slash (takeWhile (\<lambda>c. c \<noteq> CHR ''#'') u)"

section \<open>Properties of the retry routine\<close>


lemma adapt_error_cases: "adapt_error d = None \<or> adapt_error d = Some ValueError"
  by (simp add: adapt_error_def)


lemma exhausted_cases:
  "(exhausted ttl st u depth drv c = (Inr (failed_data ttl st u depth, False), drv,
        insert_data c (failed_data ttl st u depth)) \<and>
    adapt_error (failed_data ttl st u depth) = None) \<or>
   (exhausted ttl st u depth drv c = (Inl ValueError, drv, c) \<and>
    adapt_error (failed_data ttl st u depth) = Some ValueError)"
  using adapt_error_cases[of "failed_data ttl st u depth"]
  by (auto simp add: exhausted_def Let_def)

text \<open>
  One activation of the routine: it raises at once, returns the record of the page, goes
  on with the next activation, or ends as \<open>exhausted\<close> does. In the last three cases the
  session has made one navigation more.
\<close>

lemma scrape_step:
  obtains
    (overflow) "room = 0"
      "scrape_page_with_retry cfg site drv u depth c rc room = (Inl RecursionError, drv, c)"
  | (loaded) s where "room \<noteq> 0" "site u rc = Loaded s"
      "adapt_error (success_data s u depth rc) = None"
      "scrape_page_with_retry cfg site drv u depth c rc room =
         (Inr (success_data s u depth rc, True),
          drv\<lparr>navigations := Suc (navigations drv), page_source := Some s\<rparr>,
          insert_data c (success_data s u depth rc))"
  | (retry) drv1 where "room \<noteq> 0" "rc < MAX_RETRIES cfg"
      "navigations drv1 = Suc (navigations drv)"
      "scrape_page_with_retry cfg site drv u depth c rc room =
         scrape_page_with_retry cfg site drv1 u depth c (rc + 1) (room - 1)"
  | (spent) drv1 ttl st where "room \<noteq> 0" "\<not> rc < MAX_RETRIES cfg"
      "navigations drv1 = Suc (navigations drv)"
      "(ttl, st) = (''Failed to load'', ''failed'') \<or> (ttl, st) = (''Error occurred'', ''error'')"
      "scrape_page_with_retry cfg site drv u depth c rc room = exhausted ttl st u depth drv1 c"
proof (cases "room = 0")
  case True
  then show ?thesis using overflow by simp
next
  case False
  note room = this
  show ?thesis
  proof (cases "site u rc")
    case (Loaded s)
    let ?drv = "drv\<lparr>navigations := Suc (navigations drv), page_source := Some s\<rparr>"
    show ?thesis
    proof (cases "adapt_error (success_data s u depth rc)")
      case None
      with room Loaded show ?thesis using loaded[of s] by (simp add: Let_def)
    next
      case (Some e)
      show ?thesis
      proof (cases "rc < MAX_RETRIES cfg")
        case True
        with room Loaded Some show ?thesis using retry[of ?drv] by (simp add: Let_def)
      next
        case False
        with room Loaded Some show ?thesis
          using spent[of ?drv "''Error occurred''" "''error''"] by (simp add: Let_def)
      qed
    qed
  next
    case Timeout
    let ?drv = "drv\<lparr>navigations := Suc (navigations drv)\<rparr>"
    show ?thesis
    proof (cases "rc < MAX_RETRIES cfg")
      case True
      with room Timeout show ?thesis using retry[of ?drv] by (simp add: Let_def)
    next
      case False
      with room Timeout show ?thesis
        using spent[of ?drv "''Failed to load''" "''failed''"] by (simp add: Let_def)
    qed
  next
    case Failure
    let ?drv = "drv\<lparr>navigations := Suc (navigations drv)\<rparr>"
    show ?thesis
    proof (cases "rc < MAX_RETRIES cfg")
      case True
      with room Failure show ?thesis using retry[of ?drv] by (simp add: Let_def)
    next
      case False
      with room Failure show ?thesis
        using spent[of ?drv "''Error occurred''" "''error''"] by (simp add: Let_def)
    qed
  qed
qed

declare scrape_page_with_retry.simps [simp del]

lemma scrape_no_room [simp]:
  "scrape_page_with_retry cfg site drv u depth c rc 0 = (Inl RecursionError, drv, c)"
  by (simp add: scrape_page_with_retry.simps)

lemma scrape_conn:
  "scrape_page_with_retry cfg site drv u depth c rc room = (Inr (d, ok), drv', c') \<Longrightarrow>
     c' = insert_data c d"
proof (induction room arbitrary: drv rc)
  case 0
  then show ?case by simp
next
  case (Suc n)
  show ?case
  proof (cases rule: scrape_step[where room="Suc n" and cfg=cfg and site=site and drv=drv and u=u
        and depth=depth and c=c and rc=rc])
    case overflow
    then show ?thesis by simp
  next
    case (loaded s)
    with Suc.prems show ?thesis by auto
  next
    case (retry drv1)
    with Suc.prems Suc.IH[of drv1 "rc + 1"] show ?thesis by simp
  next
    case (spent drv1 ttl st)
    with Suc.prems exhausted_cases[of ttl st u depth drv1 c] show ?thesis by auto
  qed
qed

lemma scrape_raised:
  "scrape_page_with_retry cfg site drv u depth c rc room = (Inl e, drv', c') \<Longrightarrow>
     c' = c \<and> (e = RecursionError \<or> e = ValueError)"
proof (induction room arbitrary: drv rc)
  case 0
  then show ?case by simp
next
  case (Suc n)
  show ?case
  proof (cases rule: scrape_step[where room="Suc n" and cfg=cfg and site=site and drv=drv and u=u
        and depth=depth and c=c and rc=rc])
    case overflow
    then show ?thesis by simp
  next
    case (loaded s)
    with Suc.prems show ?thesis by auto
  next
    case (retry drv1)
    with Suc.prems Suc.IH[of drv1 "rc + 1"] show ?thesis by simp
  next
    case (spent drv1 ttl st)
    with Suc.prems exhausted_cases[of ttl st u depth drv1 c] show ?thesis by auto
  qed
qed


lemma scrape_record:
  "scrape_page_with_retry cfg site drv u depth c rc room = (Inr (d, ok), drv', c') \<Longrightarrow>
     (ok \<and> (\<exists>s k. d = success_data s u depth k \<and> rc \<le> k \<and> (k = rc \<or> k \<le> MAX_RETRIES cfg) \<and>
         site u k = Loaded s \<and> page_source drv' = Some s)) \<or>
     (\<not> ok \<and> (d = failed_data ''Failed to load'' ''failed'' u depth \<or>
               d = failed_data ''Error occurred'' ''error'' u depth))"
proof (induction room arbitrary: drv rc)
  case 0
  then show ?case by simp
next
  case (Suc n)
  show ?case
  proof (cases rule: scrape_step[where room="Suc n" and cfg=cfg and site=site and drv=drv and u=u
        and depth=depth and c=c and rc=rc])
    case overflow
    then show ?thesis by simp
  next
    case (loaded s)
    with Suc.prems show ?thesis by auto
  next
    case (retry drv1)
    with Suc.prems have "scrape_page_with_retry cfg site drv1 u depth c (rc + 1) n = (Inr (d, ok), drv', c')"
      by simp
    from Suc.IH[OF this] retry(2) show ?thesis by fastforce
  next
    case (spent drv1 ttl st)
    with Suc.prems exhausted_cases[of ttl st u depth drv1 c] show ?thesis by auto
  qed
qed



lemma scrape_conn_eq:
  assumes "scrape_page_with_retry cfg site drv u depth c rc room = (r, drv', c')"
  shows "c' = (case r of Inl e \<Rightarrow> c | Inr p \<Rightarrow> insert_data c (fst p))"
proof (cases r)
  case (Inl e)
  with assms scrape_raised[of cfg site drv u depth c rc room e drv' c'] show ?thesis by simp
next
  case (Inr p)
  obtain d ok where "p = (d, ok)" by (cases p)
  with Inr assms scrape_conn[of cfg site drv u depth c rc room d ok drv' c'] show ?thesis by simp
qed

section \<open>Properties of the crawl loop\<close>

lemma fetched_append: "fetched (xs @ ys) = fetched xs @ fetched ys"
  by (induction xs rule: fetched.induct) simp_all

lemma enqueued_append: "enqueued (xs @ ys) = enqueued xs @ enqueued ys"
  by (induction xs rule: enqueued.induct) simp_all

lemma add_links_shape:
  "add_links cfg visited d hrefs (q, lg) = (q', lg') \<Longrightarrow>
     \<exists>new ev. q' = q @ new \<and> lg' = lg @ ev \<and> fetched ev = [] \<and> enqueued ev = new \<and>
       (\<forall>e \<in> set new. snd e = d + 1)"
proof (induction hrefs arbitrary: q lg)
  case Nil
  then show ?case by simp
next
  case (Cons h hrefs)
  show ?case
  proof (cases "is_already_in_queue h q")
    case True
    with Cons.prems have "add_links cfg visited d hrefs (q, lg) = (q', lg')" by simp
    from Cons.IH[OF this] show ?thesis .
  next
    case False
    show ?thesis
    proof (cases "is_valid_url cfg h (DOMAIN cfg) visited")
      case None
      with False Cons.prems have "q' = q" "lg' = lg @ [LinkError]" by simp_all
      then show ?thesis by simp
    next
      case (Some v)
      show ?thesis
      proof (cases v)
        case True
        with Some False Cons.prems
        have "add_links cfg visited d hrefs (q @ [(h, d + 1)], lg @ [Added h (d + 1)]) = (q', lg')"
          by simp
        from Cons.IH[OF this] obtain new ev where
          "q' = (q @ [(h, d + 1)]) @ new" "lg' = (lg @ [Added h (d + 1)]) @ ev"
          "fetched ev = []" "enqueued ev = new" "\<forall>e \<in> set new. snd e = d + 1" by blast
        then have "q' = q @ ((h, d + 1) # new) \<and> lg' = lg @ (Added h (d + 1) # ev) \<and>
          fetched (Added h (d + 1) # ev) = [] \<and> enqueued (Added h (d + 1) # ev) = (h, d + 1) # new \<and>
          (\<forall>e \<in> set ((h, d + 1) # new). snd e = d + 1)" by simp
        then show ?thesis by blast
      next
        case False
        with Some \<open>\<not> is_already_in_queue h q\<close> Cons.prems
        have "add_links cfg visited d hrefs (q, lg) = (q', lg')" by simp
        from Cons.IH[OF this] show ?thesis .
      qed
    qed
  qed
qed

lemma run_loop_invariant:
  assumes "P st" and "\<And>s. P s \<Longrightarrow> P (step_state (crawl_step cfg site s))"
  shows "P (snd (run_loop cfg site n st))"
  using assms(1)
proof (induction n arbitrary: st)
  case 0
  then show ?case by simp
next
  case (Suc n)
  from assms(2)[OF Suc.prems] have P': "P (step_state (crawl_step cfg site st))" .
  show ?case
  proof (cases "crawl_step cfg site st")
    case (Continue st')
    with P' have "P st'" by simp
    from Suc.IH[OF this] Continue show ?thesis by simp
  next
    case (Break st')
    with P' show ?thesis by simp
  next
    case (Raise e st')
    with P' show ?thesis by simp
  qed
qed


lemma discover_links_shape:
  "\<exists>new ev. discover_links cfg d st = st\<lparr>urls_to_visit := urls_to_visit st @ new, log := log st @ ev\<rparr> \<and>
     fetched ev = [] \<and> enqueued ev = new \<and> (\<forall>e \<in> set new. snd e = d + 1)"
proof -
  let ?hrefs = "case page_source (driver st) of None \<Rightarrow> [] | Some s \<Rightarrow> anchors s"
  obtain q' lg' where al:
    "add_links cfg (visited_urls st) d ?hrefs (urls_to_visit st, log st) = (q', lg')"
    by (cases "add_links cfg (visited_urls st) d ?hrefs (urls_to_visit st, log st)")
  from add_links_shape[OF al] obtain new ev where
    "q' = urls_to_visit st @ new" "lg' = log st @ ev" "fetched ev = []" "enqueued ev = new"
    "\<forall>e \<in> set new. snd e = d + 1" by blast
  with al show ?thesis by (auto simp add: discover_links_def Let_def)
qed

lemma periodic_restart_shape:
  "\<exists>drv pre. periodic_restart cfg st = st\<lparr>driver := drv, log := log st @ pre\<rparr> \<and>
     fetched pre = [] \<and> enqueued pre = []"
proof (cases "pages_scraped_count st > 0 \<and> pages_scraped_count st mod DRIVER_RESTART_INTERVAL cfg = 0")
  case True
  then have "periodic_restart cfg st = st\<lparr>driver := restart_driver (driver st),
      log := log st @ [Restarting (pages_scraped_count st)]\<rparr>"
    by (simp add: periodic_restart_def)
  moreover have "fetched [Restarting (pages_scraped_count st)] = []"
    "enqueued [Restarting (pages_scraped_count st)] = []" by simp_all
  ultimately show ?thesis by blast
next
  case False
  then have "periodic_restart cfg st = st\<lparr>driver := driver st, log := log st @ []\<rparr>"
    by (auto simp add: periodic_restart_def)
  moreover have "fetched [] = []" "enqueued [] = []" by simp_all
  ultimately show ?thesis by blast
qed

lemma scrape_current_shape:
  "\<exists>r drv c'. scrape_current cfg site nu d st =
       (map_sum id snd r,
        st\<lparr>log := log st @ [Scraping (pages_scraped_count st) d nu], driver := drv,
           pg_conn := c'\<rparr>) \<and>
     scrape_page_with_retry cfg site (driver st) nu d (pg_conn st) 0 (RECURSION_ROOM cfg) =
       (r, drv, c') \<and>
     c' = (case r of Inl e \<Rightarrow> pg_conn st | Inr p \<Rightarrow> insert_data (pg_conn st) (fst p))"
proof -
  obtain r drv c' where r:
    "scrape_page_with_retry cfg site (driver st) nu d (pg_conn st) 0 (RECURSION_ROOM cfg) =
       (r, drv, c')"
    by (metis prod.exhaust)
  note scrape_conn_eq[OF r]
  moreover from r have "scrape_current cfg site nu d st =
       (map_sum id snd r,
        st\<lparr>log := log st @ [Scraping (pages_scraped_count st) d nu], driver := drv,
           pg_conn := c'\<rparr>)"
    by (simp add: scrape_current_def)
  ultimately show ?thesis using r by blast
qed

lemma visit_page_nonzero:
  assumes "\<not> (pages_scraped_count (mark_visited nu st) > 0 \<and> DRIVER_RESTART_INTERVAL cfg = 0)"
  shows "visit_page cfg site nu d st =
     (case scrape_current cfg site nu d (periodic_restart cfg (mark_visited nu st)) of
        (Inl e, st2) \<Rightarrow> Raise e st2
      | (Inr success, st2) \<Rightarrow>
          Continue (if d < MAX_DEPTH cfg \<and> success then discover_links cfg d st2 else st2))"
  unfolding visit_page_def Let_def by (rule if_not_P[OF assms])

lemma step_state_sum [simp]:
  "step_state ((case r of Inl e \<Rightarrow> Raise e | Inr p \<Rightarrow> Continue) st) = st"
  by (cases r) simp_all

lemma visit_page_shape:
  "visit_page cfg site nu d st = Raise ZeroDivisionError (mark_visited nu st) \<or>
   (\<exists>r c' drv drv0 pre new ev.
      visit_page cfg site nu d st =
        (case r of Inl e \<Rightarrow> Raise e | Inr p \<Rightarrow> Continue)
          (st\<lparr>visited_urls := insert nu (visited_urls st),
              pages_scraped_count := pages_scraped_count st + 1,
              driver := drv,
              pg_conn := c',
              urls_to_visit := urls_to_visit st @ new,
              log := log st @ pre @ [Scraping (pages_scraped_count st + 1) d nu] @ ev\<rparr>) \<and>
      scrape_page_with_retry cfg site drv0 nu d (pg_conn st) 0 (RECURSION_ROOM cfg) =
        (r, drv, c') \<and>
      fetched pre = [] \<and> enqueued pre = [] \<and> fetched ev = [] \<and> enqueued ev = new \<and>
      (\<forall>e \<in> set new. snd e = d + 1) \<and> (\<not> d < MAX_DEPTH cfg \<longrightarrow> new = []) \<and>
      c' = (case r of Inl e \<Rightarrow> pg_conn st | Inr p \<Rightarrow> insert_data (pg_conn st) (fst p)))"
proof (cases "pages_scraped_count (mark_visited nu st) > 0 \<and> DRIVER_RESTART_INTERVAL cfg = 0")
  case True
  then show ?thesis by (simp add: visit_page_def Let_def)
next
  case False
  let ?st1 = "mark_visited nu st"
  from periodic_restart_shape[of cfg ?st1] obtain drv0 pre where pr:
    "periodic_restart cfg ?st1 = ?st1\<lparr>driver := drv0, log := log ?st1 @ pre\<rparr>"
    "fetched pre = []" "enqueued pre = []" by blast
  let ?st2 = "?st1\<lparr>driver := drv0, log := log ?st1 @ pre\<rparr>"
  from scrape_current_shape[of cfg site nu d ?st2] obtain r drv c' where sc:
    "scrape_current cfg site nu d ?st2 =
       (map_sum id snd r,
        ?st2\<lparr>log := log ?st2 @ [Scraping (pages_scraped_count ?st2) d nu], driver := drv,
               pg_conn := c'\<rparr>)"
    "scrape_page_with_retry cfg site (driver ?st2) nu d (pg_conn ?st2) 0 (RECURSION_ROOM cfg) =
       (r, drv, c')"
    "c' = (case r of Inl e \<Rightarrow> pg_conn ?st2 | Inr p \<Rightarrow> insert_data (pg_conn ?st2) (fst p))"
    by blast
  let ?st3 = "?st2\<lparr>log := log ?st2 @ [Scraping (pages_scraped_count ?st2) d nu], driver := drv,
               pg_conn := c'\<rparr>"
  have sc': "scrape_page_with_retry cfg site drv0 nu d (pg_conn st) 0 (RECURSION_ROOM cfg) =
        (r, drv, c')"
    using sc(2) by (simp add: mark_visited_def)
  have cc: "c' = (case r of Inl e \<Rightarrow> pg_conn st | Inr p \<Rightarrow> insert_data (pg_conn st) (fst p))"
    using sc(3) by (cases r) (simp_all add: mark_visited_def)
  have nil: "fetched [] = []" "enqueued [] = []"
    "\<forall>e \<in> set ([]::(string \<times> int) list). snd e = d + 1"
    "\<not> d < MAX_DEPTH cfg \<longrightarrow> ([]::(string \<times> int) list) = []"
    by simp_all
  show ?thesis
  proof (cases r)
    case (Inl e)
    with visit_page_nonzero[OF False, of site d] pr(1) sc(1)
    have "visit_page cfg site nu d st = Raise e ?st3"
      by simp
    with Inl have "visit_page cfg site nu d st =
        (case r of Inl e \<Rightarrow> Raise e | Inr p \<Rightarrow> Continue)
          (st\<lparr>visited_urls := insert nu (visited_urls st),
              pages_scraped_count := pages_scraped_count st + 1,
              driver := drv,
              pg_conn := c',
              urls_to_visit := urls_to_visit st @ [],
              log := log st @ pre @ [Scraping (pages_scraped_count st + 1) d nu] @ []\<rparr>)"
      by (simp add: mark_visited_def)
    then show ?thesis using sc' cc pr(2,3) nil by blast
  next
    case (Inr p)
    obtain dd ok where p: "p = (dd, ok)" by (cases p)
    have vp: "visit_page cfg site nu d st =
        Continue (if d < MAX_DEPTH cfg \<and> ok then discover_links cfg d ?st3 else ?st3)"
      using visit_page_nonzero[OF False, of site d] pr(1) sc(1) Inr p by simp
    show ?thesis
    proof (cases "d < MAX_DEPTH cfg \<and> ok")
      case True
      from discover_links_shape[of cfg d ?st3] obtain new ev where dl:
        "discover_links cfg d ?st3 =
           ?st3\<lparr>urls_to_visit := urls_to_visit ?st3 @ new, log := log ?st3 @ ev\<rparr>"
        "fetched ev = []" "enqueued ev = new" "\<forall>e \<in> set new. snd e = d + 1" by blast
      from vp True dl(1) Inr have "visit_page cfg site nu d st =
          (case r of Inl e \<Rightarrow> Raise e | Inr p \<Rightarrow> Continue)
            (st\<lparr>visited_urls := insert nu (visited_urls st),
                pages_scraped_count := pages_scraped_count st + 1,
                driver := drv,
                pg_conn := c',
                urls_to_visit := urls_to_visit st @ new,
                log := log st @ pre @ [Scraping (pages_scraped_count st + 1) d nu] @ ev\<rparr>)"
        by (simp add: mark_visited_def)
      with sc' cc pr(2,3) dl(2,3,4) True show ?thesis by blast
    next
      case False
      with vp Inr have "visit_page cfg site nu d st =
          (case r of Inl e \<Rightarrow> Raise e | Inr p \<Rightarrow> Continue)
            (st\<lparr>visited_urls := insert nu (visited_urls st),
                pages_scraped_count := pages_scraped_count st + 1,
                driver := drv,
                pg_conn := c',
                urls_to_visit := urls_to_visit st @ [],
                log := log st @ pre @ [Scraping (pages_scraped_count st + 1) d nu] @ []\<rparr>)"
        by (simp add: mark_visited_def)
      then show ?thesis using sc' cc pr(2,3) nil by blast
    qed
  qed
qed

lemma rstrip_slash_idem: "rstrip_slash (rstrip_slash u) = rstrip_slash u"
proof -
  have "dropWhile (\<lambda>c. c = CHR ''/'') (dropWhile (\<lambda>c. c = CHR ''/'') (rev u))
        = dropWhile (\<lambda>c. c = CHR ''/'') (rev u)"
    by (rule dropWhile_idem)
  then show ?thesis by (simp add: rstrip_slash_def)
qed

lemma is_valid_url_not_visited:
  "is_valid_url cfg u dm V = Some True \<Longrightarrow> rstrip_slash u \<notin> V"
  by (auto simp add: is_valid_url_def Let_def split: if_splits option.splits)

lemma crawl_step_effect:
  "(\<exists>q' ev. step_state (crawl_step cfg site st) = st\<lparr>urls_to_visit := q', log := log st @ ev\<rparr> \<and>
      fetched ev = [] \<and> enqueued ev = [] \<and> (q' = urls_to_visit st \<or> q' = tl (urls_to_visit st))) \<or>
   (\<exists>u d rest. urls_to_visit st = (u, d) # rest \<and>
      is_valid_url cfg (rstrip_slash u) (DOMAIN cfg) (visited_urls st) = Some True \<and>
      d \<le> MAX_DEPTH cfg \<and>
      crawl_step cfg site st = visit_page cfg site (rstrip_slash u) d (st\<lparr>urls_to_visit := rest\<rparr>))"
proof (cases "urls_to_visit st")
  case Nil
  then have "step_state (crawl_step cfg site st) = st\<lparr>urls_to_visit := urls_to_visit st, log := log st @ []\<rparr>"
    by (simp add: crawl_step_def)
  moreover have "fetched [] = []" "enqueued [] = []" by simp_all
  ultimately show ?thesis by blast
next
  case (Cons e rest)
  obtain u d where e: "e = (u, d)" by (cases e)
  show ?thesis
  proof (cases "PAGE_LIMIT cfg > 0 \<and> pages_scraped_count st \<ge> PAGE_LIMIT cfg")
    case True
    with Cons e have "step_state (crawl_step cfg site st) =
        st\<lparr>urls_to_visit := urls_to_visit st, log := log st @ [ReachedLimit]\<rparr>"
      by (simp add: crawl_step_def)
    moreover have "fetched [ReachedLimit] = []" "enqueued [ReachedLimit] = []" by simp_all
    ultimately show ?thesis by blast
  next
    case False
    note nolimit = this
    have quiet: "step_state (crawl_step cfg site st) = st\<lparr>urls_to_visit := rest\<rparr> \<Longrightarrow> ?thesis"
    proof -
      assume "step_state (crawl_step cfg site st) = st\<lparr>urls_to_visit := rest\<rparr>"
      then have "step_state (crawl_step cfg site st) = st\<lparr>urls_to_visit := rest, log := log st @ []\<rparr>"
        by simp
      moreover have "fetched [] = []" "enqueued [] = []" "rest = tl (urls_to_visit st)"
        using Cons by auto
      ultimately show ?thesis by blast
    qed
    show ?thesis
    proof (cases "is_valid_url cfg (rstrip_slash u) (DOMAIN cfg) (visited_urls st)")
      case None
      with Cons e nolimit have "step_state (crawl_step cfg site st) = st\<lparr>urls_to_visit := rest\<rparr>"
        by (simp add: crawl_step_def Let_def)
      then show ?thesis by (rule quiet)
    next
      case (Some valid)
      show ?thesis
      proof (cases "\<not> valid \<or> d > MAX_DEPTH cfg")
        case True
        with Some Cons e nolimit
        have "step_state (crawl_step cfg site st) = st\<lparr>urls_to_visit := rest\<rparr>"
          by (auto simp add: crawl_step_def Let_def)
        then show ?thesis by (rule quiet)
      next
        case False
        with Some Cons e nolimit
        have "crawl_step cfg site st = visit_page cfg site (rstrip_slash u) d (st\<lparr>urls_to_visit := rest\<rparr>)"
          by (auto simp add: crawl_step_def Let_def)
        with False Some Cons e show ?thesis by auto
      qed
    qed
  qed
qed

text \<open>The three ways a pass of the loop can change the state.\<close>

lemma crawl_step_cases:
  obtains
    (quiet) q' ev where
      "step_state (crawl_step cfg site st) = st\<lparr>urls_to_visit := q', log := log st @ ev\<rparr>"
      "fetched ev = []" "enqueued ev = []" "q' = urls_to_visit st \<or> q' = tl (urls_to_visit st)"
  | (zero) u d rest where
      "urls_to_visit st = (u, d) # rest"
      "is_valid_url cfg (rstrip_slash u) (DOMAIN cfg) (visited_urls st) = Some True"
      "d \<le> MAX_DEPTH cfg"
      "step_state (crawl_step cfg site st) = mark_visited (rstrip_slash u) (st\<lparr>urls_to_visit := rest\<rparr>)"
  | (visit) u d rest r c' drv drv0 pre new ev where
      "urls_to_visit st = (u, d) # rest"
      "is_valid_url cfg (rstrip_slash u) (DOMAIN cfg) (visited_urls st) = Some True"
      "d \<le> MAX_DEPTH cfg"
      "step_state (crawl_step cfg site st) =
         st\<lparr>urls_to_visit := rest, visited_urls := insert (rstrip_slash u) (visited_urls st),
            pages_scraped_count := pages_scraped_count st + 1,
            driver := drv,
            pg_conn := c',
            urls_to_visit := rest @ new,
            log := log st @ pre @ [Scraping (pages_scraped_count st + 1) d (rstrip_slash u)] @ ev\<rparr>"
      "scrape_page_with_retry cfg site drv0 (rstrip_slash u) d (pg_conn st) 0 (RECURSION_ROOM cfg) =
         (r, drv, c')"
      "fetched pre = []" "enqueued pre = []" "fetched ev = []" "enqueued ev = new"
      "\<forall>e \<in> set new. snd e = d + 1" "\<not> d < MAX_DEPTH cfg \<longrightarrow> new = []"
      "c' = (case r of Inl e \<Rightarrow> pg_conn st | Inr p \<Rightarrow> insert_data (pg_conn st) (fst p))"
proof -
  from crawl_step_effect[of cfg site st] consider
    (a) "\<exists>q' ev. step_state (crawl_step cfg site st) = st\<lparr>urls_to_visit := q', log := log st @ ev\<rparr> \<and>
      fetched ev = [] \<and> enqueued ev = [] \<and> (q' = urls_to_visit st \<or> q' = tl (urls_to_visit st))"
  | (b) "\<exists>u d rest. urls_to_visit st = (u, d) # rest \<and>
      is_valid_url cfg (rstrip_slash u) (DOMAIN cfg) (visited_urls st) = Some True \<and>
      d \<le> MAX_DEPTH cfg \<and>
      crawl_step cfg site st = visit_page cfg site (rstrip_slash u) d (st\<lparr>urls_to_visit := rest\<rparr>)"
    by blast
  then show thesis
  proof cases
    case a
    then show ?thesis using quiet by blast
  next
    case b
    then obtain u d rest where b':
      "urls_to_visit st = (u, d) # rest"
      "is_valid_url cfg (rstrip_slash u) (DOMAIN cfg) (visited_urls st) = Some True"
      "d \<le> MAX_DEPTH cfg"
      "crawl_step cfg site st = visit_page cfg site (rstrip_slash u) d (st\<lparr>urls_to_visit := rest\<rparr>)"
      by blast
    from visit_page_shape[of cfg site "rstrip_slash u" d "st\<lparr>urls_to_visit := rest\<rparr>"]
    show ?thesis
    proof (elim disjE exE conjE)
      assume "visit_page cfg site (rstrip_slash u) d (st\<lparr>urls_to_visit := rest\<rparr>) =
         Raise ZeroDivisionError (mark_visited (rstrip_slash u) (st\<lparr>urls_to_visit := rest\<rparr>))"
      with b' show ?thesis using zero by simp
    next
      fix r c' drv drv0 pre new ev
      assume "visit_page cfg site (rstrip_slash u) d (st\<lparr>urls_to_visit := rest\<rparr>) =
        (case r of Inl e \<Rightarrow> Raise e | Inr p \<Rightarrow> Continue)
          (st\<lparr>urls_to_visit := rest,
              visited_urls := insert (rstrip_slash u) (visited_urls (st\<lparr>urls_to_visit := rest\<rparr>)),
              pages_scraped_count := pages_scraped_count (st\<lparr>urls_to_visit := rest\<rparr>) + 1,
              driver := drv,
              pg_conn := c',
              urls_to_visit := urls_to_visit (st\<lparr>urls_to_visit := rest\<rparr>) @ new,
              log := log (st\<lparr>urls_to_visit := rest\<rparr>) @ pre @
                 [Scraping (pages_scraped_count (st\<lparr>urls_to_visit := rest\<rparr>) + 1) d (rstrip_slash u)] @ ev\<rparr>)"
        and "scrape_page_with_retry cfg site drv0 (rstrip_slash u) d
               (pg_conn (st\<lparr>urls_to_visit := rest\<rparr>)) 0 (RECURSION_ROOM cfg) = (r, drv, c')"
        and "fetched pre = []" "enqueued pre = []" "fetched ev = []" "enqueued ev = new"
          "\<forall>e \<in> set new. snd e = d + 1" "\<not> d < MAX_DEPTH cfg \<longrightarrow> new = []"
        and "c' = (case r of Inl e \<Rightarrow> pg_conn (st\<lparr>urls_to_visit := rest\<rparr>)
                    | Inr p \<Rightarrow> insert_data (pg_conn (st\<lparr>urls_to_visit := rest\<rparr>)) (fst p))"
      with b' show ?thesis
        using visit[where u=u and d=d and rest=rest and r=r and c'=c' and drv=drv
            and ?drv0.0=drv0 and pre=pre and new=new and ev=ev]
        by (cases r) simp_all
    qed
  qed
qed

lemma step_keeps_fetch_invariant:
  assumes "distinct (map fst (fetched (log st))) \<and> fst ` set (fetched (log st)) \<subseteq> visited_urls st \<and>
     (\<forall>e \<in> set (fetched (log st)). rstrip_slash (fst e) = fst e \<and> snd e \<le> MAX_DEPTH cfg)"
    (is "?I st")
  shows "?I (step_state (crawl_step cfg site st))"
proof (cases rule: crawl_step_cases[of cfg site st])
  case (quiet q' ev)
  with assms show ?thesis by (simp add: fetched_append)
next
  case (zero u d rest)
  with assms show ?thesis by (auto simp add: mark_visited_def)
next
  case (visit u d rest r c' drv drv0 pre new ev)
  from is_valid_url_not_visited[OF visit(2)] have "rstrip_slash u \<notin> visited_urls st"
    by (simp add: rstrip_slash_idem)
  with assms have nf: "rstrip_slash u \<notin> fst ` set (fetched (log st))" by blast
  have f: "fetched (log (step_state (crawl_step cfg site st))) = fetched (log st) @ [(rstrip_slash u, d)]"
    using visit by (simp add: fetched_append)
  have v: "visited_urls (step_state (crawl_step cfg site st)) = insert (rstrip_slash u) (visited_urls st)"
    using visit(4) by simp
  from assms nf visit(3) show ?thesis unfolding f v
    by (auto simp add: rstrip_slash_idem)
qed

lemma step_keeps_parent_invariant:
  assumes "\<forall>e \<in> set (enqueued (log st)). \<exists>p. (p, snd e - 1) \<in> set (fetched (log st))"
    (is "?I st")
  shows "?I (step_state (crawl_step cfg site st))"
proof (cases rule: crawl_step_cases[of cfg site st])
  case (quiet q' ev)
  with assms show ?thesis by (simp add: fetched_append enqueued_append)
next
  case (zero u d rest)
  with assms show ?thesis by (auto simp add: mark_visited_def)
next
  case (visit u d rest r c' drv drv0 pre new ev)
  have f: "fetched (log (step_state (crawl_step cfg site st))) = fetched (log st) @ [(rstrip_slash u, d)]"
    using visit by (simp add: fetched_append)
  have e: "enqueued (log (step_state (crawl_step cfg site st))) = enqueued (log st) @ new"
    using visit by (simp add: enqueued_append)
  from assms visit(10) show ?thesis unfolding f e by fastforce
qed

lemma step_keeps_seed_only:
  assumes "MAX_DEPTH cfg = 0"
    and "set (urls_to_visit st) \<subseteq> {(START_URL cfg, 0)} \<and> enqueued (log st) = [] \<and>
         set (fetched (log st)) \<subseteq> {(rstrip_slash (START_URL cfg), 0)}" (is "?I st")
  shows "?I (step_state (crawl_step cfg site st))"
proof (cases rule: crawl_step_cases[of cfg site st])
  case (quiet q' ev)
  from quiet(4) assms(2) have "set q' \<subseteq> {(START_URL cfg, 0)}"
    by (cases "urls_to_visit st") auto
  with quiet assms(2) show ?thesis by (simp add: fetched_append enqueued_append)
next
  case (zero u d rest)
  with assms(2) show ?thesis by (auto simp add: mark_visited_def)
next
  case (visit u d rest r c' drv drv0 pre new ev)
  from visit(1) assms(2) have ud: "u = START_URL cfg" "d = 0" and r: "set rest \<subseteq> {(START_URL cfg, 0)}"
    by auto
  from visit(11) ud assms(1) have n: "new = []" by simp
  have f: "fetched (log (step_state (crawl_step cfg site st))) = fetched (log st) @ [(rstrip_slash u, d)]"
    using visit by (simp add: fetched_append)
  have e: "enqueued (log (step_state (crawl_step cfg site st))) = enqueued (log st) @ new"
    using visit by (simp add: enqueued_append)
  have q: "urls_to_visit (step_state (crawl_step cfg site st)) = rest @ new"
    using visit(4) by simp
  from assms(2) ud r n show ?thesis unfolding f e q by simp
qed

lemma step_appends_children:
  assumes "urls_to_visit st = (u, d) # rest"
  shows "\<exists>new. (urls_to_visit (step_state (crawl_step cfg site st)) = rest @ new \<or>
                 new = [] \<and> urls_to_visit (step_state (crawl_step cfg site st)) = (u, d) # rest) \<and>
               enqueued (log (step_state (crawl_step cfg site st))) = enqueued (log st) @ new \<and>
               (\<forall>e \<in> set new. snd e = d + 1)"
proof (cases rule: crawl_step_cases[of cfg site st])
  case (quiet q' ev)
  with assms have "(urls_to_visit (step_state (crawl_step cfg site st)) = rest @ [] \<or>
                 urls_to_visit (step_state (crawl_step cfg site st)) = (u, d) # rest) \<and>
               enqueued (log (step_state (crawl_step cfg site st))) = enqueued (log st) @ []"
    by (auto simp add: enqueued_append)
  then show ?thesis by fastforce
next
  case (zero u' d' rest')
  with assms have "urls_to_visit (step_state (crawl_step cfg site st)) = rest @ [] \<and>
               enqueued (log (step_state (crawl_step cfg site st))) = enqueued (log st) @ []"
    by (simp add: mark_visited_def)
  then show ?thesis by fastforce
next
  case (visit u' d' rest' r c' drv drv0 pre new ev)
  with assms have "urls_to_visit (step_state (crawl_step cfg site st)) = rest @ new \<and>
               enqueued (log (step_state (crawl_step cfg site st))) = enqueued (log st) @ new \<and>
               (\<forall>e \<in> set new. snd e = d + 1)"
    by (simp add: enqueued_append)
  then show ?thesis by blast
qed


lemma crawl_website_run:
  assumes "crawl_website cfg site n c = (s, c', Some st)"
  shows "\<exists>c0. run_loop cfg site n (initial_state cfg c0) = (s, st) \<and> c' = pg_conn st"
proof (cases "cursor_execute c Truncate")
  case (Pair e c1)
  show ?thesis
  proof (cases e)
    case None
    with Pair assms show ?thesis
      by (auto simp add: crawl_website_def Let_def)
  next
    case (Some x)
    with Pair assms show ?thesis by (simp add: crawl_website_def)
  qed
qed

lemma run_keeps_fetch_invariant:
  assumes "log st0 = []"
  shows "distinct (map fst (fetched (log (snd (run_loop cfg site n st0))))) \<and>
         fst ` set (fetched (log (snd (run_loop cfg site n st0))))
           \<subseteq> visited_urls (snd (run_loop cfg site n st0)) \<and>
         (\<forall>e \<in> set (fetched (log (snd (run_loop cfg site n st0)))).
             rstrip_slash (fst e) = fst e \<and> snd e \<le> MAX_DEPTH cfg)"
  by (rule run_loop_invariant[where P = "\<lambda>st. distinct (map fst (fetched (log st))) \<and>
         fst ` set (fetched (log st)) \<subseteq> visited_urls st \<and>
         (\<forall>e \<in> set (fetched (log st)). rstrip_slash (fst e) = fst e \<and> snd e \<le> MAX_DEPTH cfg)"])
     (simp add: assms, rule step_keeps_fetch_invariant)

lemma run_keeps_parent_invariant:
  assumes "log st0 = []"
  shows "\<forall>e \<in> set (enqueued (log (snd (run_loop cfg site n st0)))).
           \<exists>p. (p, snd e - 1) \<in> set (fetched (log (snd (run_loop cfg site n st0))))"
  by (rule run_loop_invariant[where P = "\<lambda>st. \<forall>e \<in> set (enqueued (log st)).
           \<exists>p. (p, snd e - 1) \<in> set (fetched (log st))"])
     (simp add: assms, rule step_keeps_parent_invariant)

lemma run_keeps_seed_only:
  assumes "MAX_DEPTH cfg = 0"
  shows "set (urls_to_visit (snd (run_loop cfg site n (initial_state cfg c0)))) \<subseteq> {(START_URL cfg, 0)} \<and>
         enqueued (log (snd (run_loop cfg site n (initial_state cfg c0)))) = [] \<and>
         set (fetched (log (snd (run_loop cfg site n (initial_state cfg c0)))))
           \<subseteq> {(rstrip_slash (START_URL cfg), 0)}"
  by (rule run_loop_invariant[where P = "\<lambda>st. set (urls_to_visit st) \<subseteq> {(START_URL cfg, 0)} \<and>
         enqueued (log st) = [] \<and> set (fetched (log st)) \<subseteq> {(rstrip_slash (START_URL cfg), 0)}"])
     (simp add: initial_state_def, rule step_keeps_seed_only[OF assms])

lemma distinct_in_singleton:
  assumes "distinct (map fst xs)" and "set xs \<subseteq> {a}"
  shows "length xs \<le> 1"
proof -
  from assms(1) have "distinct xs" by (rule distinct_map[THEN iffD1, THEN conjunct1])
  then have "length xs = card (set xs)" by (simp add: distinct_card)
  also from assms(2) have "\<dots> \<le> card {a}" by (intro card_mono) simp_all
  finally show ?thesis by simp
qed

lemma upsert_row_set: "set (upsert_row r rows) \<subseteq> insert r (set rows)"
  by (induction rows) auto

lemma insert_data_keeps_rows:
  assumes "txn c = NoTxn" and "pages c = Some rows" and "\<forall>r \<in> set rows. P r" and "P (row_of d)"
  shows "txn (insert_data c d) = NoTxn \<and>
         (\<exists>rows'. pages (insert_data c d) = Some rows' \<and> (\<forall>r \<in> set rows'. P r))"
proof (cases "faults c \<noteq> [] \<and> hd (faults c)")
  case True
  with assms(1,2,3) show ?thesis
    by (simp add: insert_data_def cursor_execute_def Let_def rollback_def)
next
  case False
  with assms(1,2) have "txn (insert_data c d) = NoTxn"
    "pages (insert_data c d) = Some (upsert_row (row_of d) rows)"
    by (auto simp add: insert_data_def cursor_execute_def Let_def commit_def txn_view_def)
  moreover from assms(3,4) upsert_row_set[of "row_of d" rows]
  have "\<forall>r \<in> set (upsert_row (row_of d) rows). P r" by auto
  ultimately show ?thesis by simp
qed

lemma ddl_execute:
  assumes "s = CreatePages \<or> s = OtherDDL" and "pages c = Some []"
    and "txn c = NoTxn \<or> txn c = InTxn (Some []) \<or> txn c = FailedTxn"
  shows "pages (snd (cursor_execute c s)) = Some [] \<and>
         (txn (snd (cursor_execute c s)) = InTxn (Some []) \<or>
          txn (snd (cursor_execute c s)) = FailedTxn)"
  using assms by (auto simp add: cursor_execute_def Let_def txn_view_def)

lemma ddl_execute_all:
  assumes "\<forall>s \<in> set ss. s = CreatePages \<or> s = OtherDDL" and "pages c = Some []"
    and "txn c = NoTxn \<or> txn c = InTxn (Some []) \<or> txn c = FailedTxn"
  shows "pages (snd (execute_all c ss)) = Some [] \<and>
         (txn (snd (execute_all c ss)) = NoTxn \<or> txn (snd (execute_all c ss)) = InTxn (Some []) \<or>
          txn (snd (execute_all c ss)) = FailedTxn)"
  using assms
proof (induction ss arbitrary: c)
  case Nil
  then show ?case by simp
next
  case (Cons s ss)
  from Cons.prems have s: "s = CreatePages \<or> s = OtherDDL" by simp
  note one = ddl_execute[OF s Cons.prems(2,3)]
  obtain e c1 where ex: "cursor_execute c s = (e, c1)" by (cases "cursor_execute c s")
  show ?case
  proof (cases e)
    case None
    from one ex have "pages c1 = Some []"
      "txn c1 = NoTxn \<or> txn c1 = InTxn (Some []) \<or> txn c1 = FailedTxn" by auto
    from Cons.IH[OF _ this] Cons.prems(1) ex None show ?thesis by simp
  next
    case (Some x)
    with one ex show ?thesis by auto
  qed
qed

lemma create_tables_keeps_empty:
  assumes "pages c = Some []" and "txn c = NoTxn"
  shows "pages (create_tables c) = Some [] \<and> txn (create_tables c) = NoTxn"
proof -
  let ?ss = "[CreatePages, OtherDDL, OtherDDL, OtherDDL, OtherDDL, OtherDDL, OtherDDL, OtherDDL]"
  have "\<forall>s \<in> set ?ss. s = CreatePages \<or> s = OtherDDL" by simp
  from ddl_execute_all[OF this assms(1)] assms(2)
  have r: "pages (snd (execute_all c ?ss)) = Some [] \<and>
         (txn (snd (execute_all c ?ss)) = NoTxn \<or> txn (snd (execute_all c ?ss)) = InTxn (Some []) \<or>
          txn (snd (execute_all c ?ss)) = FailedTxn)" by simp
  obtain e c1 where ex: "execute_all c ?ss = (e, c1)" by (cases "execute_all c ?ss")
  with r have "pages c1 = Some []"
    "txn c1 = NoTxn \<or> txn c1 = InTxn (Some []) \<or> txn c1 = FailedTxn" by simp_all
  then have "pages (commit c1) = Some [] \<and> txn (commit c1) = NoTxn"
    "pages (rollback c1) = Some [] \<and> txn (rollback c1) = NoTxn"
    by (auto simp add: commit_def rollback_def)
  with ex show ?thesis
    by (cases e) (simp_all add: create_tables_def del: execute_all.simps)
qed

lemma crawl_website_starts_empty:
  assumes "crawl_website cfg site n c = (s, c', Some st)"
  shows "\<exists>c0. run_loop cfg site n (initial_state cfg c0) = (s, st) \<and> c' = pg_conn st \<and>
              pages c0 = Some [] \<and> txn c0 = NoTxn"
proof (cases "cursor_execute c Truncate")
  case (Pair e c1)
  show ?thesis
  proof (cases e)
    case (Some x)
    with Pair assms show ?thesis by (simp add: crawl_website_def)
  next
    case None
    with Pair have "txn c1 = InTxn (Some [])"
      by (auto simp add: cursor_execute_def Let_def split: if_splits option.splits
          elim!: apply_stmt.elims)
    then have "pages (commit c1) = Some []" "txn (commit c1) = NoTxn"
      by (simp_all add: commit_def)
    from create_tables_keeps_empty[OF this]
    have "pages (create_tables (commit c1)) = Some [] \<and> txn (create_tables (commit c1)) = NoTxn" .
    moreover from Pair None assms
    have "run_loop cfg site n (initial_state cfg (create_tables (commit c1))) = (s, st) \<and>
          c' = pg_conn st"
      by (auto simp add: crawl_website_def Let_def)
    ultimately show ?thesis by blast
  qed
qed

lemma scrape_retry_bound:
  assumes "0 \<le> MAX_RETRIES cfg"
    and "scrape_page_with_retry cfg site drv u depth c 0 room = (Inr (d, ok), drv', c')"
  shows "0 \<le> row_retry_count (row_of d) \<and> row_retry_count (row_of d) \<le> MAX_RETRIES cfg"
  using scrape_record[OF assms(2)] assms(1)
  by (auto simp add: row_of_def success_data_def failed_data_def)

lemma step_keeps_retry_bound:
  assumes "0 \<le> MAX_RETRIES cfg"
    and "txn (pg_conn st) = NoTxn \<and>
         (\<exists>rows. pages (pg_conn st) = Some rows \<and>
            (\<forall>r \<in> set rows. 0 \<le> row_retry_count r \<and> row_retry_count r \<le> MAX_RETRIES cfg))"
      (is "?I st")
  shows "?I (step_state (crawl_step cfg site st))"
proof (cases rule: crawl_step_cases[of cfg site st])
  case (quiet q' ev)
  with assms(2) show ?thesis by simp
next
  case (zero u d rest)
  with assms(2) show ?thesis by (simp add: mark_visited_def)
next
  case (visit u d rest r c' drv drv0 pre new ev)
  have "?I (st\<lparr>pg_conn := c'\<rparr>)"
  proof (cases r)
    case (Inl e)
    with visit(12) assms(2) show ?thesis by simp
  next
    case (Inr p)
    obtain dd ok where p: "p = (dd, ok)" by (cases p)
    from assms(2) obtain rows where rows: "txn (pg_conn st) = NoTxn" "pages (pg_conn st) = Some rows"
      "\<forall>r \<in> set rows. 0 \<le> row_retry_count r \<and> row_retry_count r \<le> MAX_RETRIES cfg" by blast
    from visit(5) Inr p have "scrape_page_with_retry cfg site drv0 (rstrip_slash u) d (pg_conn st) 0
        (RECURSION_ROOM cfg) = (Inr (dd, ok), drv, c')" by simp
    from scrape_retry_bound[OF assms(1) this]
    have "0 \<le> row_retry_count (row_of dd) \<and> row_retry_count (row_of dd) \<le> MAX_RETRIES cfg" .
    from insert_data_keeps_rows[where P = "\<lambda>r. 0 \<le> row_retry_count r \<and> row_retry_count r \<le> MAX_RETRIES cfg",
        OF rows this]
    have "?I (st\<lparr>pg_conn := insert_data (pg_conn st) dd\<rparr>)" by simp
    with visit(12) Inr p show ?thesis by simp
  qed
  with visit(4) show ?thesis by simp
qed

lemma insert_data_refused:
  assumes "faults c \<noteq> []" and "hd (faults c)"
  shows "insert_data c d =
           c\<lparr>txn := NoTxn, faults := tl (faults c), journal := journal c @ [Upsert (row_of d)]\<rparr>"
  using assms by (simp add: insert_data_def cursor_execute_def Let_def rollback_def)

lemma insert_data_accepted:
  assumes "txn c = NoTxn" and "pages c = Some rows" and "\<not> (faults c \<noteq> [] \<and> hd (faults c))"
  shows "insert_data c d =
           c\<lparr>pages := Some (upsert_row (row_of d) rows), txn := NoTxn, faults := tl (faults c),
              journal := journal c @ [Upsert (row_of d)]\<rparr>"
  using assms by (auto simp add: insert_data_def cursor_execute_def Let_def commit_def txn_view_def)

lemma scrape_result_any_conn:
  "fst (scrape_page_with_retry cfg site drv u depth c2 rc room) =
     fst (scrape_page_with_retry cfg site drv u depth c rc room) \<and>
   fst (snd (scrape_page_with_retry cfg site drv u depth c2 rc room)) =
     fst (snd (scrape_page_with_retry cfg site drv u depth c rc room))"
proof (induction room arbitrary: drv rc)
  case 0
  show ?case by simp
next
  case (Suc n)
  then show ?case
    by (simp add: scrape_page_with_retry.simps[of _ _ _ _ _ _ _ "Suc n"] Let_def exhausted_def
        split: fetch_result.splits option.splits)
qed

lemma scrape_any_conn:
  assumes "scrape_page_with_retry cfg site drv u depth c rc room = (r, drv', c')"
  shows "scrape_page_with_retry cfg site drv u depth c2 rc room =
     (r, drv', case r of Inl e \<Rightarrow> c2 | Inr p \<Rightarrow> insert_data c2 (fst p))"
proof -
  obtain r2 drv2 c2' where r2:
    "scrape_page_with_retry cfg site drv u depth c2 rc room = (r2, drv2, c2')"
    by (metis prod.exhaust)
  from scrape_result_any_conn[of cfg site drv u depth c2 rc room c] assms r2
  have "r2 = r" "drv2 = drv'" by simp_all
  with r2 scrape_conn_eq[OF r2] show ?thesis by simp
qed

lemma scrape_current_any_conn:
  "scrape_current cfg site nu d (st\<lparr>pg_conn := c2\<rparr>) =
     (fst (scrape_current cfg site nu d st),
      (snd (scrape_current cfg site nu d st))
        \<lparr>pg_conn :=
           (case fst (scrape_page_with_retry cfg site (driver st) nu d (pg_conn st) 0
                        (RECURSION_ROOM cfg)) of
              Inl e \<Rightarrow> c2 | Inr p \<Rightarrow> insert_data c2 (fst p))\<rparr>)"
proof -
  obtain r drv c1 where r:
    "scrape_page_with_retry cfg site (driver st) nu d (pg_conn st) 0 (RECURSION_ROOM cfg) =
       (r, drv, c1)"
    by (metis prod.exhaust)
  from scrape_any_conn[OF r, of c2] r show ?thesis
    by (simp add: scrape_current_def)
qed

lemma visit_page_any_conn:
  "\<exists>c'. visit_page cfg site nu d (st\<lparr>pg_conn := c2\<rparr>) =
          map_step (\<lambda>s. s\<lparr>pg_conn := c'\<rparr>) (visit_page cfg site nu d st)"
proof (cases "pages_scraped_count (mark_visited nu st) > 0 \<and> DRIVER_RESTART_INTERVAL cfg = 0")
  case True
  then have "visit_page cfg site nu d (st\<lparr>pg_conn := c2\<rparr>) =
          map_step (\<lambda>s. s\<lparr>pg_conn := c2\<rparr>) (visit_page cfg site nu d st)"
    by (simp add: visit_page_def Let_def mark_visited_def)
  then show ?thesis by blast
next
  case False
  let ?st1 = "periodic_restart cfg (mark_visited nu st)"
  let ?c' = "case fst (scrape_page_with_retry cfg site (driver ?st1) nu d (pg_conn ?st1) 0
                         (RECURSION_ROOM cfg)) of
               Inl e \<Rightarrow> c2 | Inr p \<Rightarrow> insert_data c2 (fst p)"
  have pr: "periodic_restart cfg (mark_visited nu (st\<lparr>pg_conn := c2\<rparr>)) = ?st1\<lparr>pg_conn := c2\<rparr>"
    by (simp add: periodic_restart_def mark_visited_def)
  have sc: "scrape_current cfg site nu d (?st1\<lparr>pg_conn := c2\<rparr>) =
          (fst (scrape_current cfg site nu d ?st1),
           (snd (scrape_current cfg site nu d ?st1))\<lparr>pg_conn := ?c'\<rparr>)"
    by (rule scrape_current_any_conn)
  have dl: "\<And>s. discover_links cfg d (s\<lparr>pg_conn := ?c'\<rparr>) = (discover_links cfg d s)\<lparr>pg_conn := ?c'\<rparr>"
    by (simp add: discover_links_def Let_def)
  from False have f2: "\<not> (pages_scraped_count (mark_visited nu (st\<lparr>pg_conn := c2\<rparr>)) > 0 \<and>
      DRIVER_RESTART_INTERVAL cfg = 0)"
    by (simp add: mark_visited_def)
  have "visit_page cfg site nu d (st\<lparr>pg_conn := c2\<rparr>) =
          map_step (\<lambda>s. s\<lparr>pg_conn := ?c'\<rparr>) (visit_page cfg site nu d st)"
    unfolding visit_page_nonzero[OF False] visit_page_nonzero[OF f2]
    by (simp add: pr sc dl split_beta split: sum.splits)
  then show ?thesis by blast
qed

lemma crawl_step_any_conn:
  "\<exists>c'. crawl_step cfg site (st\<lparr>pg_conn := c2\<rparr>) =
          map_step (\<lambda>s. s\<lparr>pg_conn := c'\<rparr>) (crawl_step cfg site st)"
proof (cases "urls_to_visit st")
  case Nil
  then have "crawl_step cfg site (st\<lparr>pg_conn := c2\<rparr>) =
          map_step (\<lambda>s. s\<lparr>pg_conn := c2\<rparr>) (crawl_step cfg site st)"
    by (simp add: crawl_step_def)
  then show ?thesis by blast
next
  case (Cons e rest)
  obtain u d where e: "e = (u, d)" by (cases e)
  let ?valid = "is_valid_url cfg (rstrip_slash u) (DOMAIN cfg) (visited_urls st)"
  show ?thesis
  proof (cases "(PAGE_LIMIT cfg > 0 \<and> pages_scraped_count st \<ge> PAGE_LIMIT cfg) \<or>
                ?valid \<noteq> Some True \<or> d > MAX_DEPTH cfg")
    case True
    with Cons e have "crawl_step cfg site (st\<lparr>pg_conn := c2\<rparr>) =
          map_step (\<lambda>s. s\<lparr>pg_conn := c2\<rparr>) (crawl_step cfg site st)"
      by (cases ?valid) (auto simp add: crawl_step_def Let_def)
    then show ?thesis by blast
  next
    case False
    with Cons e have a: "crawl_step cfg site st =
        visit_page cfg site (rstrip_slash u) d (st\<lparr>urls_to_visit := rest\<rparr>)"
      by (auto simp add: crawl_step_def Let_def)
    from False Cons e have "crawl_step cfg site (st\<lparr>pg_conn := c2\<rparr>) =
        visit_page cfg site (rstrip_slash u) d (st\<lparr>pg_conn := c2, urls_to_visit := rest\<rparr>)"
      by (auto simp add: crawl_step_def Let_def)
    moreover have "st\<lparr>pg_conn := c2, urls_to_visit := rest\<rparr> =
        (st\<lparr>urls_to_visit := rest\<rparr>)\<lparr>pg_conn := c2\<rparr>" by simp
    ultimately have b: "crawl_step cfg site (st\<lparr>pg_conn := c2\<rparr>) =
        visit_page cfg site (rstrip_slash u) d ((st\<lparr>urls_to_visit := rest\<rparr>)\<lparr>pg_conn := c2\<rparr>)"
      by (simp only:)
    from visit_page_any_conn[where cfg=cfg and site=site and nu="rstrip_slash u" and d=d
        and st="st\<lparr>urls_to_visit := rest\<rparr>" and ?c2.0=c2]
    show ?thesis unfolding a b .
  qed
qed

lemma run_loop_any_conn:
  "\<exists>c'. run_loop cfg site n (st\<lparr>pg_conn := c2\<rparr>) =
          (fst (run_loop cfg site n st), (snd (run_loop cfg site n st))\<lparr>pg_conn := c'\<rparr>)"
proof (induction n arbitrary: st c2)
  case 0
  have "run_loop cfg site 0 (st\<lparr>pg_conn := c2\<rparr>) =
          (fst (run_loop cfg site 0 st), (snd (run_loop cfg site 0 st))\<lparr>pg_conn := c2\<rparr>)"
    by simp
  then show ?case by blast
next
  case (Suc n)
  from crawl_step_any_conn[where cfg=cfg and site=site and st=st and ?c2.0=c2] obtain c1 where
    s: "crawl_step cfg site (st\<lparr>pg_conn := c2\<rparr>) =
          map_step (\<lambda>s. s\<lparr>pg_conn := c1\<rparr>) (crawl_step cfg site st)" by blast
  show ?case
  proof (cases "crawl_step cfg site st")
    case (Continue st')
    from Suc.IH[where st=st' and ?c2.0=c1] obtain c' where
      "run_loop cfg site n (st'\<lparr>pg_conn := c1\<rparr>) =
          (fst (run_loop cfg site n st'), (snd (run_loop cfg site n st'))\<lparr>pg_conn := c'\<rparr>)"
      by blast
    with s Continue have "run_loop cfg site (Suc n) (st\<lparr>pg_conn := c2\<rparr>) =
          (fst (run_loop cfg site (Suc n) st), (snd (run_loop cfg site (Suc n) st))\<lparr>pg_conn := c'\<rparr>)"
      by simp
    then show ?thesis by blast
  next
    case (Break st')
    with s have "run_loop cfg site (Suc n) (st\<lparr>pg_conn := c2\<rparr>) =
          (fst (run_loop cfg site (Suc n) st), (snd (run_loop cfg site (Suc n) st))\<lparr>pg_conn := c1\<rparr>)"
      by simp
    then show ?thesis by blast
  next
    case (Raise x st')
    with s have "run_loop cfg site (Suc n) (st\<lparr>pg_conn := c2\<rparr>) =
          (fst (run_loop cfg site (Suc n) st), (snd (run_loop cfg site (Suc n) st))\<lparr>pg_conn := c1\<rparr>)"
      by simp
    then show ?thesis by blast
  qed
qed

lemma takeWhile_eq_replicate:
  "takeWhile (\<lambda>c. c = a) xs = replicate (length (takeWhile (\<lambda>c. c = a) xs)) a"
  by (induction xs) simp_all

lemma rstrip_slash_only_slashes:
  "\<exists>k. u = rstrip_slash u @ replicate k (CHR ''/'')"
proof -
  let ?P = "\<lambda>c. c = CHR ''/''"
  have "u = rev (dropWhile ?P (rev u)) @ rev (takeWhile ?P (rev u))"
    by (metis rev_append rev_rev_ident takeWhile_dropWhile_id)
  then have "u = rstrip_slash u @ rev (takeWhile ?P (rev u))"
    by (simp only: rstrip_slash_def)
  moreover have "rev (takeWhile ?P (rev u)) = replicate (length (takeWhile ?P (rev u))) (CHR ''/'')"
    by (subst takeWhile_eq_replicate) simp
  ultimately have "u = rstrip_slash u @ replicate (length (takeWhile ?P (rev u))) (CHR ''/'')"
    by simp
  then show ?thesis by (rule exI)
qed

lemma rstrip_slash_no_trailing_slash:
  "rstrip_slash u = [] \<or> last (rstrip_slash u) \<noteq> CHR ''/''"
proof (cases "dropWhile (\<lambda>c. c = CHR ''/'') (rev u)")
  case Nil
  then show ?thesis by (simp add: rstrip_slash_def)
next
  case (Cons x xs)
  from hd_dropWhile[of "\<lambda>c. c = CHR ''/''" "rev u"] Cons have "x \<noteq> CHR ''/''" by simp
  with Cons show ?thesis by (simp add: rstrip_slash_def)
qed

lemma is_valid_url_visited:
  "is_valid_url cfg u dm V =
     (if is_valid_url cfg u dm {} = Some True \<and> rstrip_slash u \<in> V then Some False
      else is_valid_url cfg u dm {})"
  by (simp add: is_valid_url_def Let_def split: option.splits)

lemma is_already_in_queue_iff:
  "is_already_in_queue full_url q \<longleftrightarrow> rstrip_slash full_url \<in> set (map (rstrip_slash \<circ> fst) q)"
  by (induction q) (auto simp add: is_already_in_queue_def)

lemma scrape_key:
  assumes "scrape_page_with_retry cfg site drv u depth c rc room = (Inr (d, ok), drv', c')"
  shows "url d = rstrip_slash u \<and> row_url (row_of d) = rstrip_slash u \<and> c' = insert_data c d"
  using scrape_record[OF assms] scrape_conn[OF assms]
  by (auto simp add: success_data_def failed_data_def row_of_def)

lemma step_keeps_visited_stripped:
  assumes "\<forall>v \<in> visited_urls st. rstrip_slash v = v" (is "?I st")
  shows "?I (step_state (crawl_step cfg site st))"
proof (cases rule: crawl_step_cases[of cfg site st])
  case (quiet q' ev)
  with assms show ?thesis by simp
next
  case (zero u d rest)
  with assms show ?thesis by (simp add: mark_visited_def rstrip_slash_idem)
next
  case (visit u d rest r c' drv drv0 pre new ev)
  with assms show ?thesis by (simp add: rstrip_slash_idem)
qed

section \<open>The example runs, evaluated\<close>

lemma rstrip_slash_subset: "set (rstrip_slash u) \<subseteq> set u"
  unfolding rstrip_slash_def using set_dropWhileD[of _ "\<lambda>c. c = CHR ''/''" "rev u"] by auto

lemma page_adapts:
  assumes "CHR 0x00 \<notin> set u"
  shows "adapt_error (success_data hub_page u d k) = None"
    and "adapt_error (success_data link_page u d k) = None"
    and "adapt_error (success_data fragment_page u d k) = None"
proof -
  from assms rstrip_slash_subset[of u] have n: "CHR 0x00 \<notin> set (rstrip_slash u)" by blast
  from n show "adapt_error (success_data hub_page u d k) = None"
    by (simp add: adapt_error_def success_data_def hub_page_def title_tag_def strip_def
        is_space_def cleaned_content_def heading_tags_def meta_content_def Let_def)
  from n show "adapt_error (success_data link_page u d k) = None"
    by (simp add: adapt_error_def success_data_def link_page_def title_tag_def strip_def
        is_space_def cleaned_content_def heading_tags_def meta_content_def Let_def)
  from n show "adapt_error (success_data fragment_page u d k) = None"
    by (simp add: adapt_error_def success_data_def fragment_page_def title_tag_def strip_def
        is_space_def cleaned_content_def heading_tags_def meta_content_def Let_def)
qed

lemma scrape_loaded:
  "site u 0 = Loaded s \<Longrightarrow> adapt_error (success_data s u depth 0) = None \<Longrightarrow> room \<noteq> 0 \<Longrightarrow>
   scrape_page_with_retry cfg site drv u depth c 0 room =
     (Inr (success_data s u depth 0, True),
      drv\<lparr>navigations := Suc (navigations drv), page_source := Some s\<rparr>,
      insert_data c (success_data s u depth 0))"
  by (simp add: scrape_page_with_retry.simps Let_def)

lemma crawl_step_loaded:
  assumes "is_valid_url cfg (rstrip_slash u) (DOMAIN cfg) V = Some True"
    and "d \<le> MAX_DEPTH cfg" and "DRIVER_RESTART_INTERVAL cfg \<noteq> 0"
    and "\<not> (PAGE_LIMIT cfg > 0 \<and> PAGE_LIMIT cfg \<le> n)" and "0 \<le> n"
    and "site (rstrip_slash u) 0 = Loaded s"
    and "adapt_error (success_data s (rstrip_slash u) d 0) = None"
    and "RECURSION_ROOM cfg \<noteq> 0"
  shows "\<exists>drv' c'. crawl_step cfg site
           \<lparr>driver = drv, pg_conn = c, pages_scraped_count = n,
            urls_to_visit = (u, d) # rest, visited_urls = V, log = lg\<rparr> =
         Continue
           (let lg' = lg @ (if (n + 1) mod DRIVER_RESTART_INTERVAL cfg = 0
                           then [Restarting (n + 1)] else [])
                         @ [Scraping (n + 1) d (rstrip_slash u)];
                ql = (if d < MAX_DEPTH cfg
                      then add_links cfg (insert (rstrip_slash u) V) d (anchors s) (rest, lg')
                      else (rest, lg'))
            in \<lparr>driver = drv', pg_conn = c', pages_scraped_count = n + 1,
                urls_to_visit = fst ql, visited_urls = insert (rstrip_slash u) V, log = snd ql\<rparr>)"
  using assms
  by (simp add: crawl_step_def visit_page_def mark_visited_def periodic_restart_def
      scrape_current_def scrape_loaded discover_links_def Let_def)

lemmas url_eval = is_valid_url_def urlparse_netloc_def strip_scheme_def is_alpha_def
  is_scheme_char_def lower_def lower_char_def endswith_def skip_extensions_def startswith_def
  rstrip_slash_def is_already_in_queue_def Let_def

lemma four_pages_urls:
  "rstrip_slash ''http://x/'' = ''http://x''"
  "rstrip_slash ''http://x/a'' = ''http://x/a''"
  "rstrip_slash ''http://x/b'' = ''http://x/b''"
  "rstrip_slash ''http://x/c'' = ''http://x/c''"
  "is_valid_url interval_two_config ''http://x'' ''x'' {} = Some True"
  "is_valid_url interval_two_config ''http://x/a'' ''x'' {''http://x''} = Some True"
  "is_valid_url interval_two_config ''http://x/b'' ''x'' {''http://x''} = Some True"
  "is_valid_url interval_two_config ''http://x/c'' ''x'' {''http://x''} = Some True"
  "is_valid_url interval_two_config ''http://x/b'' ''x'' {''http://x/a'', ''http://x''} = Some True"
  "is_valid_url interval_two_config ''http://x/c'' ''x''
     {''http://x/b'', ''http://x/a'', ''http://x''} = Some True"
  by (simp_all add: url_eval interval_two_config_def)

lemma interval_two_fields:
  "DOMAIN interval_two_config = ''x''" "MAX_DEPTH interval_two_config = 1"
  "DRIVER_RESTART_INTERVAL interval_two_config = 2" "PAGE_LIMIT interval_two_config = 0"
  "START_URL interval_two_config = ''http://x/''" "MAX_RETRIES interval_two_config = 0"
  "RECURSION_ROOM interval_two_config = 1000"
  by (simp_all add: interval_two_config_def)

lemma four_pages_links:
  "add_links interval_two_config {''http://x''} 0 (anchors hub_page) ([], lg) =
     ([(''http://x/a'', 1), (''http://x/b'', 1), (''http://x/c'', 1)],
      lg @ [Added ''http://x/a'' 1, Added ''http://x/b'' 1, Added ''http://x/c'' 1])"
  by (simp add: hub_page_def is_already_in_queue_def rstrip_slash_def four_pages_urls
      interval_two_fields)


lemma four_pages_run:
  "\<exists>st'. run_loop interval_two_config four_pages (Suc (Suc (Suc (Suc (Suc k)))))
            (initial_state interval_two_config c) = (Finished, st') \<and>
         log st' =
           [Scraping 1 0 ''http://x'',
            Added ''http://x/a'' 1, Added ''http://x/b'' 1, Added ''http://x/c'' 1,
            Restarting 2, Scraping 2 1 ''http://x/a'',
            Scraping 3 1 ''http://x/b'',
            Restarting 4, Scraping 4 1 ''http://x/c'']"
proof -
  let ?C = interval_two_config and ?W = four_pages
  let ?L1 = "[Scraping 1 0 ''http://x'',
            Added ''http://x/a'' 1, Added ''http://x/b'' 1, Added ''http://x/c'' 1]"
  let ?L2 = "[Scraping 1 0 ''http://x'',
            Added ''http://x/a'' 1, Added ''http://x/b'' 1, Added ''http://x/c'' 1,
            Restarting 2, Scraping 2 1 ''http://x/a'']"
  let ?L3 = "[Scraping 1 0 ''http://x'',
            Added ''http://x/a'' 1, Added ''http://x/b'' 1, Added ''http://x/c'' 1,
            Restarting 2, Scraping 2 1 ''http://x/a'', Scraping 3 1 ''http://x/b'']"
  let ?L4 = "[Scraping 1 0 ''http://x'',
            Added ''http://x/a'' 1, Added ''http://x/b'' 1, Added ''http://x/c'' 1,
            Restarting 2, Scraping 2 1 ''http://x/a'', Scraping 3 1 ''http://x/b'',
            Restarting 4, Scraping 4 1 ''http://x/c'']"
  have w: "\<And>u. ?W u 0 = Loaded hub_page" by (simp add: four_pages_def)
  from crawl_step_loaded[of ?C "''http://x/''" "{}" 0 0 ?W hub_page get_driver c "[]" "[]"]
  obtain d1 c1 where s1: "crawl_step ?C ?W (initial_state ?C c) =
      Continue \<lparr>driver = d1, pg_conn = c1, pages_scraped_count = 1,
        urls_to_visit = [(''http://x/a'', 1), (''http://x/b'', 1), (''http://x/c'', 1)],
        visited_urls = {''http://x''}, log = ?L1\<rparr>"
    by (auto simp add: w four_pages_urls interval_two_fields four_pages_links initial_state_def
        page_adapts)
  from crawl_step_loaded[of ?C "''http://x/a''" "{''http://x''}" 1 1 ?W hub_page d1 c1
      "[(''http://x/b'', 1), (''http://x/c'', 1)]" ?L1]
  obtain d2 c2 where s2: "crawl_step ?C ?W \<lparr>driver = d1, pg_conn = c1, pages_scraped_count = 1,
        urls_to_visit = [(''http://x/a'', 1), (''http://x/b'', 1), (''http://x/c'', 1)],
        visited_urls = {''http://x''}, log = ?L1\<rparr> =
      Continue \<lparr>driver = d2, pg_conn = c2, pages_scraped_count = 2,
        urls_to_visit = [(''http://x/b'', 1), (''http://x/c'', 1)],
        visited_urls = {''http://x/a'', ''http://x''}, log = ?L2\<rparr>"
    by (auto simp add: w four_pages_urls interval_two_fields page_adapts)
  from crawl_step_loaded[of ?C "''http://x/b''" "{''http://x/a'', ''http://x''}" 1 2 ?W hub_page d2 c2
      "[(''http://x/c'', 1)]" ?L2]
  obtain d3 c3 where s3: "crawl_step ?C ?W \<lparr>driver = d2, pg_conn = c2, pages_scraped_count = 2,
        urls_to_visit = [(''http://x/b'', 1), (''http://x/c'', 1)],
        visited_urls = {''http://x/a'', ''http://x''}, log = ?L2\<rparr> =
      Continue \<lparr>driver = d3, pg_conn = c3, pages_scraped_count = 3,
        urls_to_visit = [(''http://x/c'', 1)],
        visited_urls = {''http://x/b'', ''http://x/a'', ''http://x''}, log = ?L3\<rparr>"
    by (auto simp add: w four_pages_urls interval_two_fields page_adapts)
  from crawl_step_loaded[of ?C "''http://x/c''" "{''http://x/b'', ''http://x/a'', ''http://x''}" 1 3 ?W
      hub_page d3 c3 "[]" ?L3]
  obtain d4 c4 where s4: "crawl_step ?C ?W \<lparr>driver = d3, pg_conn = c3, pages_scraped_count = 3,
        urls_to_visit = [(''http://x/c'', 1)],
        visited_urls = {''http://x/b'', ''http://x/a'', ''http://x''}, log = ?L3\<rparr> =
      Continue \<lparr>driver = d4, pg_conn = c4, pages_scraped_count = 4,
        urls_to_visit = [],
        visited_urls = {''http://x/c'', ''http://x/b'', ''http://x/a'', ''http://x''}, log = ?L4\<rparr>"
    by (auto simp add: w four_pages_urls interval_two_fields page_adapts)
  have s5: "crawl_step ?C ?W \<lparr>driver = d4, pg_conn = c4, pages_scraped_count = 4,
        urls_to_visit = [],
        visited_urls = {''http://x/c'', ''http://x/b'', ''http://x/a'', ''http://x''}, log = ?L4\<rparr> =
      Break \<lparr>driver = d4, pg_conn = c4, pages_scraped_count = 4,
        urls_to_visit = [],
        visited_urls = {''http://x/c'', ''http://x/b'', ''http://x/a'', ''http://x''}, log = ?L4\<rparr>"
    by (simp add: crawl_step_def)
  show ?thesis by (simp add: s1 s2 s3 s4 s5)
qed

lemma four_pages_first_step:
  "urls_to_visit (step_state (crawl_step interval_two_config four_pages
      (initial_state interval_two_config c))) =
     [(''http://x/a'', 1), (''http://x/b'', 1), (''http://x/c'', 1)] \<and>
   enqueued (log (step_state (crawl_step interval_two_config four_pages
      (initial_state interval_two_config c)))) =
     [(''http://x/a'', 1), (''http://x/b'', 1), (''http://x/c'', 1)]"
proof -
  have w: "\<And>u. four_pages u 0 = Loaded hub_page" by (simp add: four_pages_def)
  from crawl_step_loaded[of interval_two_config "''http://x/''" "{}" 0 0 four_pages hub_page
      get_driver c "[]" "[]"]
  obtain d1 c1 where "crawl_step interval_two_config four_pages (initial_state interval_two_config c) =
      Continue \<lparr>driver = d1, pg_conn = c1, pages_scraped_count = 1,
        urls_to_visit = [(''http://x/a'', 1), (''http://x/b'', 1), (''http://x/c'', 1)],
        visited_urls = {''http://x''},
        log = [Scraping 1 0 ''http://x'',
               Added ''http://x/a'' 1, Added ''http://x/b'' 1, Added ''http://x/c'' 1]\<rparr>"
    by (auto simp add: w four_pages_urls interval_two_fields four_pages_links initial_state_def
        page_adapts)
  then show ?thesis by simp
qed

lemma seed_only_fields:
  "DOMAIN seed_only_config = ''x''" "MAX_DEPTH seed_only_config = 0"
  "DRIVER_RESTART_INTERVAL seed_only_config = 50" "PAGE_LIMIT seed_only_config = 0"
  "START_URL seed_only_config = ''http://x/''" "MAX_RETRIES seed_only_config = 1"
  "RECURSION_ROOM seed_only_config = 1000"
  by (simp_all add: seed_only_config_def)

lemma seed_only_urls:
  "is_valid_url seed_only_config ''http://x'' ''x'' {} = Some True"
  "is_valid_url seed_only_config ''http://x/a'' ''x'' {} = Some True"
  "is_valid_url seed_only_config ''http://x/a'' ''x'' {''http://x/a''} = Some False"
  "rstrip_slash ''http://x/a/'' = ''http://x/a''"
  by (simp_all add: url_eval seed_only_config_def)

lemma flaky_scrape:
  assumes "CHR 0x00 \<notin> set u" and "1 < room"
  shows "scrape_page_with_retry seed_only_config flaky_site drv u d c 0 room =
     (Inr (success_data hub_page u d 1, True),
      drv\<lparr>navigations := Suc (Suc (navigations drv)), page_source := Some hub_page\<rparr>,
      insert_data c (success_data hub_page u d 1))"
proof -
  from assms(2) obtain n where n: "room = Suc (Suc n)"
    by (auto simp add: less_iff_Suc_add)
  show ?thesis unfolding n
    by (simp add: scrape_page_with_retry.simps flaky_site_def seed_only_fields Let_def
        page_adapts(1)[OF assms(1)])
qed

lemma seed_only_step1:
  "crawl_step seed_only_config flaky_site (initial_state seed_only_config c) =
     Continue \<lparr>driver = \<lparr>navigations = 2, page_source = Some hub_page\<rparr>,
               pg_conn = insert_data c (success_data hub_page ''http://x'' 0 1),
               pages_scraped_count = 1, urls_to_visit = [], visited_urls = {''http://x''},
               log = [Scraping 1 0 ''http://x'']\<rparr>"
  by (simp add: crawl_step_def visit_page_def mark_visited_def periodic_restart_def
      scrape_current_def flaky_scrape discover_links_def Let_def initial_state_def
      seed_only_fields four_pages_urls seed_only_urls get_driver_def)

lemma seed_only_run:
  "run_loop seed_only_config flaky_site (Suc (Suc k)) (initial_state seed_only_config c) =
     (Finished, \<lparr>driver = \<lparr>navigations = 2, page_source = Some hub_page\<rparr>,
               pg_conn = insert_data c (success_data hub_page ''http://x'' 0 1),
               pages_scraped_count = 1, urls_to_visit = [], visited_urls = {''http://x''},
               log = [Scraping 1 0 ''http://x'']\<rparr>)"
proof -
  have "crawl_step seed_only_config flaky_site
          \<lparr>driver = \<lparr>navigations = 2, page_source = Some hub_page\<rparr>,
               pg_conn = insert_data c (success_data hub_page ''http://x'' 0 1),
               pages_scraped_count = 1, urls_to_visit = [], visited_urls = {''http://x''},
               log = [Scraping 1 0 ''http://x'']\<rparr> =
        Break \<lparr>driver = \<lparr>navigations = 2, page_source = Some hub_page\<rparr>,
               pg_conn = insert_data c (success_data hub_page ''http://x'' 0 1),
               pages_scraped_count = 1, urls_to_visit = [], visited_urls = {''http://x''},
               log = [Scraping 1 0 ''http://x'']\<rparr>"
    by (simp add: crawl_step_def)
  then show ?thesis by (simp add: seed_only_step1)
qed

lemma ready_insert:
  "insert_data ready_conn (success_data hub_page ''http://x'' 0 1) =
     \<lparr>pages = Some [\<lparr>row_url = ''http://x'', row_title = ''Hub'', row_content = ''hello'',
                      row_h1_tags = [], row_h2_tags = [], row_h3_tags = [],
                      row_meta_description = [], row_meta_keywords = [], row_page_depth = 0,
                      row_retry_count = 1, row_status = ''success''\<rparr>],
      txn = NoTxn, faults = [],
      journal = [Truncate, CreatePages, OtherDDL, OtherDDL, OtherDDL, OtherDDL, OtherDDL,
                 OtherDDL, OtherDDL,
                 Upsert \<lparr>row_url = ''http://x'', row_title = ''Hub'', row_content = ''hello'',
                      row_h1_tags = [], row_h2_tags = [], row_h3_tags = [],
                      row_meta_description = [], row_meta_keywords = [], row_page_depth = 0,
                      row_retry_count = 1, row_status = ''success''\<rparr>]\<rparr>"
  by (simp add: insert_data_def cursor_execute_def txn_view_def commit_def row_of_def
      success_data_def ready_conn_def hub_page_def title_tag_def strip_def is_space_def
      cleaned_content_def heading_tags_def meta_content_def rstrip_slash_def Let_def)


lemma crawl_website_example_conn:
  "crawl_website cfg site n example_conn =
     (fst (run_loop cfg site n (initial_state cfg ready_conn)),
      pg_conn (snd (run_loop cfg site n (initial_state cfg ready_conn))),
      Some (snd (run_loop cfg site n (initial_state cfg ready_conn))))"
  by (simp add: crawl_website_def example_conn_def ready_conn_def cursor_execute_def
      txn_view_def commit_def create_tables_def Let_def)

lemma four_pages_final_log:
  "crawl_website interval_two_config four_pages 5 example_conn =
     (Finished, pg_conn four_pages_final, Some four_pages_final) \<and>
   log four_pages_final =
     [Scraping 1 0 ''http://x'',
      Added ''http://x/a'' 1, Added ''http://x/b'' 1, Added ''http://x/c'' 1,
      Restarting 2, Scraping 2 1 ''http://x/a'',
      Scraping 3 1 ''http://x/b'',
      Restarting 4, Scraping 4 1 ''http://x/c'']"
proof -
  have five: "(5::nat) = Suc (Suc (Suc (Suc (Suc 0))))" by simp
  from four_pages_run[of 0 ready_conn] show ?thesis
    unfolding crawl_website_example_conn four_pages_final_def five by auto
qed

lemma seed_only_final_eq:
  "crawl_website seed_only_config flaky_site 2 example_conn =
     (Finished, pg_conn seed_only_final, Some seed_only_final) \<and>
   log seed_only_final = [Scraping 1 0 ''http://x''] \<and>
   visited_urls seed_only_final = {''http://x''} \<and>
   pg_conn seed_only_final = insert_data ready_conn (success_data hub_page ''http://x'' 0 1)"
proof -
  have two: "(2::nat) = Suc (Suc 0)" by simp
  show ?thesis
    unfolding crawl_website_example_conn seed_only_final_def two seed_only_run by simp
qed

lemma crawl_step_loaded_conn:
  assumes "is_valid_url cfg (rstrip_slash u) (DOMAIN cfg) V = Some True"
    and "d \<le> MAX_DEPTH cfg" and "DRIVER_RESTART_INTERVAL cfg \<noteq> 0"
    and "\<not> (PAGE_LIMIT cfg > 0 \<and> PAGE_LIMIT cfg \<le> n)" and "0 \<le> n"
    and "site (rstrip_slash u) 0 = Loaded s"
    and "adapt_error (success_data s (rstrip_slash u) d 0) = None"
    and "RECURSION_ROOM cfg \<noteq> 0"
  shows "\<exists>drv'. crawl_step cfg site
           \<lparr>driver = drv, pg_conn = c, pages_scraped_count = n,
            urls_to_visit = (u, d) # rest, visited_urls = V, log = lg\<rparr> =
         Continue
           (let lg' = lg @ (if (n + 1) mod DRIVER_RESTART_INTERVAL cfg = 0
                           then [Restarting (n + 1)] else [])
                         @ [Scraping (n + 1) d (rstrip_slash u)];
                ql = (if d < MAX_DEPTH cfg
                      then add_links cfg (insert (rstrip_slash u) V) d (anchors s) (rest, lg')
                      else (rest, lg'))
            in \<lparr>driver = drv', pg_conn = insert_data c (success_data s (rstrip_slash u) d 0),
                pages_scraped_count = n + 1,
                urls_to_visit = fst ql, visited_urls = insert (rstrip_slash u) V, log = snd ql\<rparr>)"
  using assms
  by (simp add: crawl_step_def visit_page_def mark_visited_def periodic_restart_def
      scrape_current_def scrape_loaded discover_links_def Let_def)

lemma two_pages_links:
  "add_links interval_two_config {''http://x''} 0 (anchors link_page) ([], lg) =
     ([(''http://x/a'', 1)], lg @ [Added ''http://x/a'' 1])"
  by (simp add: link_page_def is_already_in_queue_def rstrip_slash_def four_pages_urls
      interval_two_fields)

lemma two_pages_run:
  "fst (run_loop interval_two_config two_pages 3 (initial_state interval_two_config c)) = Finished \<and>
   log (snd (run_loop interval_two_config two_pages 3 (initial_state interval_two_config c))) =
     [Scraping 1 0 ''http://x'', Added ''http://x/a'' 1, Restarting 2, Scraping 2 1 ''http://x/a''] \<and>
   pg_conn (snd (run_loop interval_two_config two_pages 3 (initial_state interval_two_config c))) =
     insert_data (insert_data c (success_data link_page ''http://x'' 0 0))
       (success_data link_page ''http://x/a'' 1 0)"
proof -
  let ?C = interval_two_config and ?W = two_pages
  let ?c1 = "insert_data c (success_data link_page ''http://x'' 0 0)"
  let ?c2 = "insert_data ?c1 (success_data link_page ''http://x/a'' 1 0)"
  let ?L1 = "[Scraping 1 0 ''http://x'', Added ''http://x/a'' 1]"
  let ?L2 = "[Scraping 1 0 ''http://x'', Added ''http://x/a'' 1, Restarting 2,
              Scraping 2 1 ''http://x/a'']"
  have w: "\<And>u. ?W u 0 = Loaded link_page" by (simp add: two_pages_def)
  from crawl_step_loaded_conn[of ?C "''http://x/''" "{}" 0 0 ?W link_page get_driver c "[]" "[]"]
  obtain d1 where s1: "crawl_step ?C ?W (initial_state ?C c) =
      Continue \<lparr>driver = d1, pg_conn = ?c1, pages_scraped_count = 1,
        urls_to_visit = [(''http://x/a'', 1)], visited_urls = {''http://x''}, log = ?L1\<rparr>"
    by (auto simp add: w four_pages_urls interval_two_fields two_pages_links initial_state_def
        page_adapts)
  from crawl_step_loaded_conn[of ?C "''http://x/a''" "{''http://x''}" 1 1 ?W link_page d1 ?c1 "[]" ?L1]
  obtain d2 where s2: "crawl_step ?C ?W \<lparr>driver = d1, pg_conn = ?c1, pages_scraped_count = 1,
        urls_to_visit = [(''http://x/a'', 1)], visited_urls = {''http://x''}, log = ?L1\<rparr> =
      Continue \<lparr>driver = d2, pg_conn = ?c2, pages_scraped_count = 2,
        urls_to_visit = [], visited_urls = {''http://x/a'', ''http://x''}, log = ?L2\<rparr>"
    by (auto simp add: w four_pages_urls interval_two_fields page_adapts)
  have s3: "crawl_step ?C ?W \<lparr>driver = d2, pg_conn = ?c2, pages_scraped_count = 2,
        urls_to_visit = [], visited_urls = {''http://x/a'', ''http://x''}, log = ?L2\<rparr> =
      Break \<lparr>driver = d2, pg_conn = ?c2, pages_scraped_count = 2,
        urls_to_visit = [], visited_urls = {''http://x/a'', ''http://x''}, log = ?L2\<rparr>"
    by (simp add: crawl_step_def)
  have three: "(3::nat) = Suc (Suc (Suc 0))" by simp
  show ?thesis unfolding three by (simp add: s1 s2 s3)
qed








section \<open>The claims\<close>

text \<open>
  Claim C1. When the retries are exhausted the routine sends one upsert and returns one
  record with empty content fields and status \<open>failed\<close> or \<open>error\<close>; but the record it
  builds has no retry count, so the stored row carries the default 0 and not the final
  count. Here the cap is 1 and every attempt times out, or every attempt fails otherwise:
  two navigations are made, the final retry count is 1, the returned record has no
  \<open>retry_count\<close>, and the row stored has \<open>retry_count = 0\<close>.
\<close>

theorem C1_exhausted_record_loses_retry_count:
  "MAX_RETRIES example_config = 1 \<and>
   scrape_page_with_retry example_config always_timeout get_driver ''http://x/a'' 0 example_conn 0
       (RECURSION_ROOM example_config) =
     (Inr (failed_data ''Failed to load'' ''failed'' ''http://x/a'' 0, False),
      \<lparr>navigations = 2, page_source = None\<rparr>,
      \<lparr>pages = Some [\<lparr>row_url = ''http://x/a'', row_title = ''Failed to load'', row_content = [],
                       row_h1_tags = [], row_h2_tags = [], row_h3_tags = [],
                       row_meta_description = [], row_meta_keywords = [], row_page_depth = 0,
                       row_retry_count = 0, row_status = ''failed''\<rparr>],
       txn = NoTxn, faults = [],
       journal = [Upsert \<lparr>row_url = ''http://x/a'', row_title = ''Failed to load'', row_content = [],
                       row_h1_tags = [], row_h2_tags = [], row_h3_tags = [],
                       row_meta_description = [], row_meta_keywords = [], row_page_depth = 0,
                       row_retry_count = 0, row_status = ''failed''\<rparr>]\<rparr>) \<and>
   retry_count (failed_data ''Failed to load'' ''failed'' ''http://x/a'' 0) = None \<and>
   scrape_page_with_retry example_config always_failure get_driver ''http://x/a'' 0 example_conn 0
       (RECURSION_ROOM example_config) =
     (Inr (failed_data ''Error occurred'' ''error'' ''http://x/a'' 0, False),
      \<lparr>navigations = 2, page_source = None\<rparr>,
      \<lparr>pages = Some [\<lparr>row_url = ''http://x/a'', row_title = ''Error occurred'', row_content = [],
                       row_h1_tags = [], row_h2_tags = [], row_h3_tags = [],
                       row_meta_description = [], row_meta_keywords = [], row_page_depth = 0,
                       row_retry_count = 0, row_status = ''error''\<rparr>],
       txn = NoTxn, faults = [],
       journal = [Upsert \<lparr>row_url = ''http://x/a'', row_title = ''Error occurred'', row_content = [],
                       row_h1_tags = [], row_h2_tags = [], row_h3_tags = [],
                       row_meta_description = [], row_meta_keywords = [], row_page_depth = 0,
                       row_retry_count = 0, row_status = ''error''\<rparr>]\<rparr>) \<and>
   retry_count (failed_data ''Error occurred'' ''error'' ''http://x/a'' 0) = None"
  by (simp add: example_config_def always_timeout_def always_failure_def get_driver_def Let_def
      numeral_2_eq_2 example_conn_def insert_data_def cursor_execute_def txn_view_def commit_def
      row_of_def failed_data_def rstrip_slash_def scrape_page_with_retry.simps exhausted_def
      adapt_error_def)




text \<open>
  Claim C3. With a restart interval of 2 and a crawl of four pages the session is
  restarted twice and never inside a page's scrape; but the page counter is incremented
  before the interval test, so the restarts come when the counter reaches 2 and 4, that
  is before the second and the fourth page are scraped, not after them. The log of the
  run: page 1, its three links, restart, page 2, page 3, restart, page 4.
\<close>

theorem C3_restart_precedes_second_and_fourth_page:
  "fst (crawl_website interval_two_config four_pages 5 example_conn) = Finished \<and>
   map_option log (snd (snd (crawl_website interval_two_config four_pages 5 example_conn))) =
     Some [Scraping 1 0 ''http://x'',
           Added ''http://x/a'' 1, Added ''http://x/b'' 1, Added ''http://x/c'' 1,
           Restarting 2, Scraping 2 1 ''http://x/a'',
           Scraping 3 1 ''http://x/b'',
           Restarting 4, Scraping 4 1 ''http://x/c'']"
proof -
  have five: "(5::nat) = Suc (Suc (Suc (Suc (Suc 0))))" by simp
  from four_pages_run[of 0 ready_conn] show ?thesis
    unfolding crawl_website_example_conn five by auto
qed

text \<open>
  Claim C4. The normalisation of the code is the stripping of all trailing slashes and
  nothing else: the fragment stays. A URL with a fragment is therefore taken for new when
  the same URL without the fragment has been visited or is queued, and it is stored under
  a key of its own.
\<close>

theorem C4_fragment_is_not_removed:
  "spec_normalize ''http://x/a#top'' = ''http://x/a'' \<and>
   is_valid_url interval_two_config ''http://x/a#top'' ''x'' {''http://x/a''} = Some True \<and>
   is_already_in_queue ''http://x/a#top'' [(''http://x/a'', 1)] = False \<and>
   scrape_page_with_retry interval_two_config four_pages get_driver ''http://x/a#top'' 1
       example_conn 0 (RECURSION_ROOM interval_two_config) =
     (Inr (success_data hub_page ''http://x/a#top'' 1 0, True),
      \<lparr>navigations = 1, page_source = Some hub_page\<rparr>,
      insert_data example_conn (success_data hub_page ''http://x/a#top'' 1 0)) \<and>
   url (success_data hub_page ''http://x/a#top'' 1 0) = ''http://x/a#top''"
proof -
  have "scrape_page_with_retry interval_two_config four_pages get_driver ''http://x/a#top'' 1
       example_conn 0 (RECURSION_ROOM interval_two_config) =
     (Inr (success_data hub_page ''http://x/a#top'' 1 0, True),
      \<lparr>navigations = 1, page_source = Some hub_page\<rparr>,
      insert_data example_conn (success_data hub_page ''http://x/a#top'' 1 0))"
    by (simp add: scrape_loaded four_pages_def page_adapts interval_two_fields get_driver_def)
  then show ?thesis
    by (simp add: spec_normalize_def url_eval interval_two_config_def success_data_def)
qed

text \<open>
  Claim C4, amended. The visited set is consulted only through the URL stripped of its
  trailing slashes; the queue membership test compares the two URLs stripped of their
  trailing slashes; every record the retry routine returns and upserts is keyed by the
  URL stripped of its trailing slashes; every URL the loop puts into the visited set is
  stripped. Stripping removes a run of slashes at the end and nothing else, and leaves no
  slash at the end.
\<close>

theorem C4_urls_compared_without_trailing_slashes:
  "is_valid_url cfg u dm V =
     (if is_valid_url cfg u dm {} = Some True \<and> rstrip_slash u \<in> V then Some False
      else is_valid_url cfg u dm {}) \<and>
   (is_already_in_queue u q \<longleftrightarrow> rstrip_slash u \<in> set (map (rstrip_slash \<circ> fst) q)) \<and>
   (\<forall>d ok drv' c'.
      scrape_page_with_retry cfg site drv u depth c rc room = (Inr (d, ok), drv', c') \<longrightarrow>
      url d = rstrip_slash u \<and> row_url (row_of d) = rstrip_slash u \<and> c' = insert_data c d) \<and>
   (\<forall>s c1 st. crawl_website cfg site n c = (s, c1, Some st) \<longrightarrow>
      (\<forall>v \<in> visited_urls st. rstrip_slash v = v)) \<and>
   (\<exists>k. u = rstrip_slash u @ replicate k (CHR ''/'')) \<and>
   (rstrip_slash u = [] \<or> last (rstrip_slash u) \<noteq> CHR ''/'')"
proof -
  have k: "\<forall>d ok drv' c'.
      scrape_page_with_retry cfg site drv u depth c rc room = (Inr (d, ok), drv', c') \<longrightarrow>
      url d = rstrip_slash u \<and> row_url (row_of d) = rstrip_slash u \<and> c' = insert_data c d"
    by (intro allI impI) (rule scrape_key)
  have v: "\<forall>s c1 st. crawl_website cfg site n c = (s, c1, Some st) \<longrightarrow>
      (\<forall>v \<in> visited_urls st. rstrip_slash v = v)"
  proof (intro allI impI)
    fix s c1 st
    assume "crawl_website cfg site n c = (s, c1, Some st)"
    from crawl_website_run[OF this] obtain c0 where
      r: "run_loop cfg site n (initial_state cfg c0) = (s, st)" by blast
    have "\<forall>v \<in> visited_urls (snd (run_loop cfg site n (initial_state cfg c0))). rstrip_slash v = v"
      by (rule run_loop_invariant[where P = "\<lambda>st. \<forall>v \<in> visited_urls st. rstrip_slash v = v"])
         (simp add: initial_state_def, rule step_keeps_visited_stripped)
    with r show "\<forall>v \<in> visited_urls st. rstrip_slash v = v" by simp
  qed
  show ?thesis
    by (intro conjI is_valid_url_visited is_already_in_queue_iff k v rstrip_slash_only_slashes
        rstrip_slash_no_trailing_slash)
qed

theorem C4_urls_compared_without_trailing_slashes_witness:
  "is_valid_url interval_two_config ''http://x/a/'' ''x'' {} = Some True \<and>
   rstrip_slash ''http://x/a/'' = ''http://x/a'' \<and>
   is_valid_url interval_two_config ''http://x/a/'' ''x'' {''http://x/a''} = Some False \<and>
   is_already_in_queue ''http://x/a/'' [(''http://x/a'', 1)] = True \<and>
   scrape_page_with_retry interval_two_config four_pages get_driver ''http://x/a/'' 1 example_conn 0
       (RECURSION_ROOM interval_two_config) =
     (Inr (success_data hub_page ''http://x/a/'' 1 0, True),
      \<lparr>navigations = 1, page_source = Some hub_page\<rparr>,
      insert_data example_conn (success_data hub_page ''http://x/a/'' 1 0)) \<and>
   url (success_data hub_page ''http://x/a/'' 1 0) = ''http://x/a'' \<and>
   row_url (row_of (success_data hub_page ''http://x/a/'' 1 0)) = ''http://x/a'' \<and>
   crawl_website seed_only_config flaky_site 2 example_conn =
     (Finished, pg_conn seed_only_final, Some seed_only_final) \<and>
   visited_urls seed_only_final = {''http://x''} \<and>
   rstrip_slash ''http://x'' = ''http://x''"
proof -
  have r: "crawl_website seed_only_config flaky_site 2 example_conn =
     (Finished, pg_conn seed_only_final, Some seed_only_final)"
    and vs: "visited_urls seed_only_final = {''http://x''}"
    using seed_only_final_eq by simp_all
  from C4_urls_compared_without_trailing_slashes[where cfg=seed_only_config and site=flaky_site
      and n=2 and c=example_conn, THEN conjunct2, THEN conjunct2, THEN conjunct2, THEN conjunct1,
      rule_format, OF r] vs
  have rs: "rstrip_slash ''http://x'' = ''http://x''" by simp
  note t = C4_urls_compared_without_trailing_slashes[where cfg=interval_two_config
      and u="''http://x/a/''" and dm="''x''" and V="{''http://x/a''}"
      and q="[(''http://x/a'', 1)]" and site=four_pages and drv=get_driver and depth=1
      and c=example_conn and rc=0 and n=0 and room="RECURSION_ROOM interval_two_config"]
  have a: "is_valid_url interval_two_config ''http://x/a/'' ''x'' {} = Some True"
    and b: "rstrip_slash ''http://x/a/'' = ''http://x/a''"
    by (simp_all add: url_eval interval_two_config_def)
  from t[THEN conjunct1] a b
  have c: "is_valid_url interval_two_config ''http://x/a/'' ''x'' {''http://x/a''} = Some False"
    by simp
  from t[THEN conjunct2, THEN conjunct1] b
  have d: "is_already_in_queue ''http://x/a/'' [(''http://x/a'', 1)] = True"
    by (simp add: rstrip_slash_def)
  have e: "scrape_page_with_retry interval_two_config four_pages get_driver ''http://x/a/'' 1 example_conn 0
       (RECURSION_ROOM interval_two_config) =
     (Inr (success_data hub_page ''http://x/a/'' 1 0, True),
      \<lparr>navigations = 1, page_source = Some hub_page\<rparr>,
      insert_data example_conn (success_data hub_page ''http://x/a/'' 1 0))"
    by (simp add: scrape_loaded four_pages_def page_adapts interval_two_fields get_driver_def)
  from t[THEN conjunct2, THEN conjunct2, THEN conjunct1, rule_format, OF e] b
  have f: "url (success_data hub_page ''http://x/a/'' 1 0) = ''http://x/a''"
    and g: "row_url (row_of (success_data hub_page ''http://x/a/'' 1 0)) = ''http://x/a''"
    by simp_all
  show ?thesis by (intro conjI a b c d e f g r vs rs)
qed

text \<open>
  Claim C5. In every run of the crawler, after any number of passes of the loop: every
  page whose scrape was started has a depth of at most the maximum depth; every link
  appended to the queue has the depth of a scraped page plus 1; and under a maximum depth
  of 0 nothing but the seed URL is scraped (at most once) and no link is appended. In any
  state, one pass of the loop on the queue entry \<open>(u, d)\<close> appends only entries of
  depth \<open>d + 1\<close>.
\<close>

theorem C5_depth_discipline:
  assumes "crawl_website cfg site n c = (s, c', Some st)"
  shows "(\<forall>e \<in> set (fetched (log st)). snd e \<le> MAX_DEPTH cfg) \<and>
         (\<forall>e \<in> set (enqueued (log st)). \<exists>p. (p, snd e - 1) \<in> set (fetched (log st))) \<and>
         (MAX_DEPTH cfg = 0 \<longrightarrow>
            set (fetched (log st)) \<subseteq> {(rstrip_slash (START_URL cfg), 0)} \<and>
            length (fetched (log st)) \<le> 1 \<and> enqueued (log st) = []) \<and>
         (\<forall>s0 u d rest. urls_to_visit s0 = (u, d) # rest \<longrightarrow>
            (\<exists>new. (urls_to_visit (step_state (crawl_step cfg site s0)) = rest @ new \<or>
                    new = [] \<and> urls_to_visit (step_state (crawl_step cfg site s0)) = (u, d) # rest) \<and>
                   enqueued (log (step_state (crawl_step cfg site s0))) = enqueued (log s0) @ new \<and>
                   (\<forall>e \<in> set new. snd e = d + 1)))"
proof -
  from crawl_website_run[OF assms] obtain c0 where
    r: "run_loop cfg site n (initial_state cfg c0) = (s, st)" by blast
  then have st: "st = snd (run_loop cfg site n (initial_state cfg c0))" by simp
  have l0: "log (initial_state cfg c0) = []" by (simp add: initial_state_def)
  have a: "\<forall>e \<in> set (fetched (log st)). snd e \<le> MAX_DEPTH cfg"
    using run_keeps_fetch_invariant[OF l0, of cfg site n] st by simp
  have d: "distinct (map fst (fetched (log st)))"
    using run_keeps_fetch_invariant[OF l0, of cfg site n] st by simp
  have b: "\<forall>e \<in> set (enqueued (log st)). \<exists>p. (p, snd e - 1) \<in> set (fetched (log st))"
    using run_keeps_parent_invariant[OF l0, of cfg site n] st by simp
  have z: "MAX_DEPTH cfg = 0 \<longrightarrow>
            set (fetched (log st)) \<subseteq> {(rstrip_slash (START_URL cfg), 0)} \<and>
            length (fetched (log st)) \<le> 1 \<and> enqueued (log st) = []"
  proof
    assume "MAX_DEPTH cfg = 0"
    from run_keeps_seed_only[OF this, of site n c0] st
    have f: "set (fetched (log st)) \<subseteq> {(rstrip_slash (START_URL cfg), 0)}"
      and e: "enqueued (log st) = []" by simp_all
    from distinct_in_singleton[OF d f] f e
    show "set (fetched (log st)) \<subseteq> {(rstrip_slash (START_URL cfg), 0)} \<and>
            length (fetched (log st)) \<le> 1 \<and> enqueued (log st) = []" by simp
  qed
  have p: "\<forall>s0 u d rest. urls_to_visit s0 = (u, d) # rest \<longrightarrow>
            (\<exists>new. (urls_to_visit (step_state (crawl_step cfg site s0)) = rest @ new \<or>
                    new = [] \<and> urls_to_visit (step_state (crawl_step cfg site s0)) = (u, d) # rest) \<and>
                   enqueued (log (step_state (crawl_step cfg site s0))) = enqueued (log s0) @ new \<and>
                   (\<forall>e \<in> set new. snd e = d + 1))"
    by (intro allI impI) (rule step_appends_children)
  show ?thesis by (intro conjI a b z p)
qed

theorem C5_depth_discipline_witness:
  "crawl_website interval_two_config four_pages 5 example_conn =
     (Finished, pg_conn four_pages_final, Some four_pages_final) \<and>
   MAX_DEPTH interval_two_config = 1 \<and>
   fetched (log four_pages_final) =
     [(''http://x'', 0), (''http://x/a'', 1), (''http://x/b'', 1), (''http://x/c'', 1)] \<and>
   enqueued (log four_pages_final) = [(''http://x/a'', 1), (''http://x/b'', 1), (''http://x/c'', 1)] \<and>
   list_all (\<lambda>e. snd e \<le> MAX_DEPTH interval_two_config) (fetched (log four_pages_final)) \<and>
   crawl_website seed_only_config flaky_site 2 example_conn =
     (Finished, pg_conn seed_only_final, Some seed_only_final) \<and>
   MAX_DEPTH seed_only_config = 0 \<and>
   fetched (log seed_only_final) = [(''http://x'', 0)] \<and>
   length (fetched (log seed_only_final)) \<le> 1 \<and>
   enqueued (log seed_only_final) = [] \<and>
   urls_to_visit (initial_state interval_two_config ready_conn) = [(''http://x/'', 0)] \<and>
   urls_to_visit (step_state (crawl_step interval_two_config four_pages
      (initial_state interval_two_config ready_conn))) =
     [] @ [(''http://x/a'', 0 + 1), (''http://x/b'', 0 + 1), (''http://x/c'', 0 + 1)] \<and>
   enqueued (log (step_state (crawl_step interval_two_config four_pages
      (initial_state interval_two_config ready_conn)))) =
     enqueued (log (initial_state interval_two_config ready_conn))
       @ [(''http://x/a'', 0 + 1), (''http://x/b'', 0 + 1), (''http://x/c'', 0 + 1)]"
proof -
  have q0: "urls_to_visit (initial_state interval_two_config ready_conn) = [(''http://x/'', 0)]"
    by (simp add: initial_state_def interval_two_fields)
  have q1: "urls_to_visit (step_state (crawl_step interval_two_config four_pages
      (initial_state interval_two_config ready_conn))) =
     [] @ [(''http://x/a'', 0 + 1), (''http://x/b'', 0 + 1), (''http://x/c'', 0 + 1)]"
    and q2: "enqueued (log (step_state (crawl_step interval_two_config four_pages
      (initial_state interval_two_config ready_conn)))) =
     enqueued (log (initial_state interval_two_config ready_conn))
       @ [(''http://x/a'', 0 + 1), (''http://x/b'', 0 + 1), (''http://x/c'', 0 + 1)]"
    using four_pages_first_step[of ready_conn] by (simp_all add: initial_state_def)
  have r1: "crawl_website interval_two_config four_pages 5 example_conn =
     (Finished, pg_conn four_pages_final, Some four_pages_final)"
    using four_pages_final_log by simp
  have r2: "crawl_website seed_only_config flaky_site 2 example_conn =
     (Finished, pg_conn seed_only_final, Some seed_only_final)"
    using seed_only_final_eq by simp
  have z: "MAX_DEPTH seed_only_config = 0" by (simp add: seed_only_fields)
  from C5_depth_discipline[OF r1, THEN conjunct1]
  have a: "list_all (\<lambda>e. snd e \<le> MAX_DEPTH interval_two_config) (fetched (log four_pages_final))"
    by (simp only: list_all_iff)
  from C5_depth_discipline[OF r2, THEN conjunct2, THEN conjunct2, THEN conjunct1, THEN mp, OF z]
  have b: "length (fetched (log seed_only_final)) \<le> 1 \<and> enqueued (log seed_only_final) = []"
    by (rule conjunct2)
  have l1: "fetched (log four_pages_final) =
     [(''http://x'', 0), (''http://x/a'', 1), (''http://x/b'', 1), (''http://x/c'', 1)]"
    and l2: "enqueued (log four_pages_final) =
     [(''http://x/a'', 1), (''http://x/b'', 1), (''http://x/c'', 1)]"
    by (simp_all add: four_pages_final_log)
  have l3: "fetched (log seed_only_final) = [(''http://x'', 0)]"
    by (simp add: seed_only_final_eq)
  have m: "MAX_DEPTH interval_two_config = 1" by (simp add: interval_two_fields)
  from b have b1: "length (fetched (log seed_only_final)) \<le> 1"
    and b2: "enqueued (log seed_only_final) = []" by simp_all
  show ?thesis by (intro conjI r1 m l1 l2 a r2 z l3 b1 b2 q0 q1 q2)
qed

text \<open>
  Claim C6. Under a retry cap of at least 0, after any number of passes of the loop in
  any run of the crawler, every row of table \<open>pages\<close> has a retry count between 0 and
  the cap; and so has every row the retry routine, called with its default counter 0,
  hands to the upsert. (A successful record carries the number of the attempt that
  succeeded, which the recursion keeps at or below the cap; a record of exhausted
  retries is stored with the default 0.)
\<close>

theorem C6_retry_count_within_cap:
  assumes "0 \<le> MAX_RETRIES cfg"
    and "crawl_website cfg site n c = (s, c', Some st)"
  shows "(\<exists>rows. pages c' = Some rows \<and>
            (\<forall>r \<in> set rows. 0 \<le> row_retry_count r \<and> row_retry_count r \<le> MAX_RETRIES cfg)) \<and>
         (\<forall>drv u depth c1 room d ok drv' c2.
            scrape_page_with_retry cfg site drv u depth c1 0 room = (Inr (d, ok), drv', c2) \<longrightarrow>
            0 \<le> row_retry_count (row_of d) \<and> row_retry_count (row_of d) \<le> MAX_RETRIES cfg)"
proof -
  from crawl_website_starts_empty[OF assms(2)] obtain c0 where
    r: "run_loop cfg site n (initial_state cfg c0) = (s, st)" and c': "c' = pg_conn st"
    and c0: "pages c0 = Some []" "txn c0 = NoTxn" by blast
  let ?I = "\<lambda>st. txn (pg_conn st) = NoTxn \<and>
         (\<exists>rows. pages (pg_conn st) = Some rows \<and>
            (\<forall>r \<in> set rows. 0 \<le> row_retry_count r \<and> row_retry_count r \<le> MAX_RETRIES cfg))"
  have "?I (snd (run_loop cfg site n (initial_state cfg c0)))"
    by (rule run_loop_invariant[where P = ?I])
       (simp add: initial_state_def c0, rule step_keeps_retry_bound[OF assms(1)])
  with r c' have a: "\<exists>rows. pages c' = Some rows \<and>
            (\<forall>r \<in> set rows. 0 \<le> row_retry_count r \<and> row_retry_count r \<le> MAX_RETRIES cfg)"
    by simp
  have b: "\<forall>drv u depth c1 room d ok drv' c2.
            scrape_page_with_retry cfg site drv u depth c1 0 room = (Inr (d, ok), drv', c2) \<longrightarrow>
            0 \<le> row_retry_count (row_of d) \<and> row_retry_count (row_of d) \<le> MAX_RETRIES cfg"
    by (intro allI impI) (rule scrape_retry_bound[OF assms(1)])
  show ?thesis by (intro conjI a b)
qed

theorem C6_retry_count_within_cap_witness:
  "0 \<le> MAX_RETRIES seed_only_config \<and>
   MAX_RETRIES seed_only_config = 1 \<and>
   crawl_website seed_only_config flaky_site 2 example_conn =
     (Finished, pg_conn seed_only_final, Some seed_only_final) \<and>
   pages (pg_conn seed_only_final) =
     Some [\<lparr>row_url = ''http://x'', row_title = ''Hub'', row_content = ''hello'',
            row_h1_tags = [], row_h2_tags = [], row_h3_tags = [],
            row_meta_description = [], row_meta_keywords = [], row_page_depth = 0,
            row_retry_count = 1, row_status = ''success''\<rparr>] \<and>
   (\<exists>rows. pages (pg_conn seed_only_final) = Some rows \<and>
      list_all (\<lambda>r. 0 \<le> row_retry_count r \<and> row_retry_count r \<le> MAX_RETRIES seed_only_config) rows) \<and>
   scrape_page_with_retry seed_only_config flaky_site get_driver ''http://x'' 0 ready_conn 0
       (RECURSION_ROOM seed_only_config) =
     (Inr (success_data hub_page ''http://x'' 0 1, True),
      get_driver\<lparr>navigations := Suc (Suc (navigations get_driver)), page_source := Some hub_page\<rparr>,
      insert_data ready_conn (success_data hub_page ''http://x'' 0 1)) \<and>
   row_retry_count (row_of (success_data hub_page ''http://x'' 0 1)) = 1"
proof -
  have h: "0 \<le> MAX_RETRIES seed_only_config" and m: "MAX_RETRIES seed_only_config = 1"
    by (simp_all add: seed_only_fields)
  have r: "crawl_website seed_only_config flaky_site 2 example_conn =
     (Finished, pg_conn seed_only_final, Some seed_only_final)"
    using seed_only_final_eq by simp
  have p: "pages (pg_conn seed_only_final) =
     Some [\<lparr>row_url = ''http://x'', row_title = ''Hub'', row_content = ''hello'',
            row_h1_tags = [], row_h2_tags = [], row_h3_tags = [],
            row_meta_description = [], row_meta_keywords = [], row_page_depth = 0,
            row_retry_count = 1, row_status = ''success''\<rparr>]"
    using seed_only_final_eq by (simp add: ready_insert)
  from C6_retry_count_within_cap[OF h r, THEN conjunct1]
  have e: "\<exists>rows. pages (pg_conn seed_only_final) = Some rows \<and>
      list_all (\<lambda>r. 0 \<le> row_retry_count r \<and> row_retry_count r \<le> MAX_RETRIES seed_only_config) rows"
    by (simp only: list_all_iff)
  have f: "scrape_page_with_retry seed_only_config flaky_site get_driver ''http://x'' 0 ready_conn 0
       (RECURSION_ROOM seed_only_config) =
     (Inr (success_data hub_page ''http://x'' 0 1, True),
      get_driver\<lparr>navigations := Suc (Suc (navigations get_driver)), page_source := Some hub_page\<rparr>,
      insert_data ready_conn (success_data hub_page ''http://x'' 0 1))"
    by (rule flaky_scrape) (simp_all add: seed_only_fields)
  from C6_retry_count_within_cap[OF h r, THEN conjunct2, rule_format, OF f]
  have g0: "0 \<le> row_retry_count (row_of (success_data hub_page ''http://x'' 0 1)) \<and>
     row_retry_count (row_of (success_data hub_page ''http://x'' 0 1)) \<le> MAX_RETRIES seed_only_config" .
  have g: "row_retry_count (row_of (success_data hub_page ''http://x'' 0 1)) = 1"
    by (simp add: row_of_def success_data_def)
  show ?thesis by (intro conjI h m r p e f g)
qed




text \<open>
  Claim C8. When the server refuses the upsert of a record, \<open>insert_data\<close> returns the
  connection with no transaction open and the committed table as it was: the failed
  transaction is rolled back and no exception leaves the routine. The next upsert, if the
  server accepts it, is committed as if nothing had happened. And the course of the loop
  (its end, its queue, its visited set, its log, its session) is the same whatever
  connection it runs on, so a refused upsert changes nothing but the table: the crawl goes
  on with the next URL.
\<close>

theorem C8_refused_upsert_is_contained:
  assumes "faults c \<noteq> []" and "hd (faults c)"
  shows "insert_data c d =
           c\<lparr>txn := NoTxn, faults := tl (faults c), journal := journal c @ [Upsert (row_of d)]\<rparr> \<and>
         (\<forall>rows d2. pages c = Some rows \<and> \<not> (tl (faults c) \<noteq> [] \<and> hd (tl (faults c))) \<longrightarrow>
            pages (insert_data (insert_data c d) d2) = Some (upsert_row (row_of d2) rows) \<and>
            txn (insert_data (insert_data c d) d2) = NoTxn) \<and>
         (\<forall>cfg site n st. \<exists>c'.
            run_loop cfg site n (st\<lparr>pg_conn := c\<rparr>) =
              (fst (run_loop cfg site n st), (snd (run_loop cfg site n st))\<lparr>pg_conn := c'\<rparr>))"
proof -
  note a = insert_data_refused[OF assms, of d]
  have b: "\<forall>rows d2. pages c = Some rows \<and> \<not> (tl (faults c) \<noteq> [] \<and> hd (tl (faults c))) \<longrightarrow>
            pages (insert_data (insert_data c d) d2) = Some (upsert_row (row_of d2) rows) \<and>
            txn (insert_data (insert_data c d) d2) = NoTxn"
  proof (intro allI impI)
    fix rows d2
    assume h: "pages c = Some rows \<and> \<not> (tl (faults c) \<noteq> [] \<and> hd (tl (faults c)))"
    let ?c1 = "insert_data c d"
    from a h have "txn ?c1 = NoTxn" "pages ?c1 = Some rows"
      "\<not> (faults ?c1 \<noteq> [] \<and> hd (faults ?c1))" by simp_all
    from insert_data_accepted[OF this, of d2]
    show "pages (insert_data ?c1 d2) = Some (upsert_row (row_of d2) rows) \<and>
          txn (insert_data ?c1 d2) = NoTxn" by simp
  qed
  have c: "\<forall>cfg site n st. \<exists>c'.
            run_loop cfg site n (st\<lparr>pg_conn := c\<rparr>) =
              (fst (run_loop cfg site n st), (snd (run_loop cfg site n st))\<lparr>pg_conn := c'\<rparr>)"
    by (intro allI) (rule run_loop_any_conn)
  show ?thesis by (intro conjI a b c)
qed

theorem C8_refused_upsert_is_contained_witness:
  "faults faulty_conn \<noteq> [] \<and> hd (faults faulty_conn) \<and>
   insert_data faulty_conn (success_data link_page ''http://x'' 0 0) =
     \<lparr>pages = Some [], txn = NoTxn, faults = [],
      journal = [Truncate, CreatePages, OtherDDL, OtherDDL, OtherDDL, OtherDDL, OtherDDL,
                 OtherDDL, OtherDDL, Upsert (row_of (success_data link_page ''http://x'' 0 0))]\<rparr> \<and>
   fst (run_loop interval_two_config two_pages 3 (initial_state interval_two_config faulty_conn))
     = Finished \<and>
   log (snd (run_loop interval_two_config two_pages 3 (initial_state interval_two_config faulty_conn)))
     = [Scraping 1 0 ''http://x'', Added ''http://x/a'' 1, Restarting 2, Scraping 2 1 ''http://x/a''] \<and>
   pages (pg_conn (snd (run_loop interval_two_config two_pages 3
            (initial_state interval_two_config faulty_conn))))
     = Some [row_of (success_data link_page ''http://x/a'' 1 0)] \<and>
   pages faulty_conn = Some [] \<and> tl (faults faulty_conn) = [] \<and>
   pages (insert_data (insert_data faulty_conn (success_data link_page ''http://x'' 0 0))
            (success_data link_page ''http://x/a'' 1 0))
     = Some [row_of (success_data link_page ''http://x/a'' 1 0)]"
proof -
  have h3: "pages faulty_conn = Some []" and h4: "tl (faults faulty_conn) = []"
    by (simp_all add: faulty_conn_def)
  have h1: "faults faulty_conn \<noteq> []" and h2: "hd (faults faulty_conn)"
    by (simp_all add: faulty_conn_def)
  note t = C8_refused_upsert_is_contained[OF h1 h2, of "success_data link_page ''http://x'' 0 0"]
  from t[THEN conjunct1]
  have a: "insert_data faulty_conn (success_data link_page ''http://x'' 0 0) =
     \<lparr>pages = Some [], txn = NoTxn, faults = [],
      journal = [Truncate, CreatePages, OtherDDL, OtherDDL, OtherDDL, OtherDDL, OtherDDL,
                 OtherDDL, OtherDDL, Upsert (row_of (success_data link_page ''http://x'' 0 0))]\<rparr>"
    by (simp add: faulty_conn_def)
  from t[THEN conjunct2, THEN conjunct1, rule_format,
      of "[]" "success_data link_page ''http://x/a'' 1 0"]
  have b: "pages (insert_data (insert_data faulty_conn (success_data link_page ''http://x'' 0 0))
             (success_data link_page ''http://x/a'' 1 0))
           = Some [row_of (success_data link_page ''http://x/a'' 1 0)]"
    by (simp add: faulty_conn_def)
  note r = two_pages_run[of faulty_conn]
  from r have r1: "fst (run_loop interval_two_config two_pages 3
      (initial_state interval_two_config faulty_conn)) = Finished" by simp
  from r have r2: "log (snd (run_loop interval_two_config two_pages 3
      (initial_state interval_two_config faulty_conn)))
     = [Scraping 1 0 ''http://x'', Added ''http://x/a'' 1, Restarting 2, Scraping 2 1 ''http://x/a'']"
    by simp
  from r b have r3: "pages (pg_conn (snd (run_loop interval_two_config two_pages 3
            (initial_state interval_two_config faulty_conn))))
     = Some [row_of (success_data link_page ''http://x/a'' 1 0)]" by simp
  show ?thesis by (intro conjI h1 h2 a r1 r2 r3 h3 h4 b)
qed

text \<open>
  Claim C9. The title is the sentinel when the document has no title element or the
  element has no string; but the emptiness test comes before the stripping, so a title
  element that holds only white space gives the empty title, not the sentinel.
\<close>

theorem C9_blank_title_is_empty:
  "title_tag blank_title_page = [] \<and> title_tag blank_title_page \<noteq> ''No Title''"
  by (simp add: title_tag_def blank_title_page_def strip_def is_space_def)

text \<open>
  Claim C10. On a fresh connection to a database without table \<open>pages\<close>, the run sends
  the truncation and nothing else (the schema creation never runs), ends in the handler
  of the database error, and never enters the crawl loop.
\<close>

theorem C10_missing_table_aborts_before_loop:
  assumes "pages c = None" and "txn c = NoTxn"
  shows "crawl_website cfg site fuel c =
           (Aborted Psycopg2Error,
            c\<lparr>txn := FailedTxn, faults := tl (faults c), journal := journal c @ [Truncate]\<rparr>,
            None)"
  using assms by (simp add: crawl_website_def cursor_execute_def txn_view_def Let_def)

theorem C10_missing_table_aborts_before_loop_witness:
  "pages missing_table_conn = None \<and> txn missing_table_conn = NoTxn \<and>
   crawl_website example_config four_pages 10 missing_table_conn =
     (Aborted Psycopg2Error,
      \<lparr>pages = None, txn = FailedTxn, faults = [], journal = [Truncate]\<rparr>, None)"
proof -
  have a: "pages missing_table_conn = None" and b: "txn missing_table_conn = NoTxn"
    by (simp_all add: missing_table_conn_def)
  from C10_missing_table_aborts_before_loop[OF a b, of example_config four_pages 10] a b
  show ?thesis by (simp add: missing_table_conn_def)
qed

end
